theory Spec2Isabelle
  imports Complex_Main "HOL-Library.Word"
begin

section \<open>JavaScript strings\<close>

text \<open>
  A JavaScript string is a sequence of UTF-16 code units and \<open>length\<close> counts code units.
  The sentence splitter of \<open>fileProcessor.ts\<close> tests for full-width punctuation
  (U+3002, U+FF01, U+FF1F), so a code unit is a 16-bit word, not an 8-bit \<open>char\<close>.
  \<open>js\<close> embeds an ASCII literal.
\<close>

type_synonym jschar = "16 word"
type_synonym jsstring = "jschar list"

definition js :: "string \<Rightarrow> jsstring" where
  "js s = map of_char s"

text \<open>
  The characters that \<open>String.prototype.trim\<close> strips and that \<open>\s\<close> matches in a
  regular expression (ECMAScript WhiteSpace and LineTerminator): TAB, LF, VT, FF, CR, SP,
  NBSP, U+1680, U+2000..U+200A, LS, PS, U+202F, U+205F, U+3000, U+FEFF.
\<close>

definition isWhiteSpace :: "jschar \<Rightarrow> bool" where
  "isWhiteSpace c \<longleftrightarrow>
     c = 0x9 \<or> c = 0xA \<or> c = 0xB \<or> c = 0xC \<or> c = 0xD \<or> c = 0x20 \<or> c = 0xA0 \<or>
     c = 0x1680 \<or> (0x2000 \<le> c \<and> c \<le> 0x200A) \<or> c = 0x2028 \<or> c = 0x2029 \<or>
     c = 0x202F \<or> c = 0x205F \<or> c = 0x3000 \<or> c = 0xFEFF"

definition LF :: jschar where
  "LF = 0xA"

definition trim :: "jsstring \<Rightarrow> jsstring" where
  "trim s = rev (dropWhile isWhiteSpace (rev (dropWhile isWhiteSpace s)))"

section \<open>fileProcessor.ts: the segmenter\<close>

subsection \<open>\<open>text.split(/\n\s*\n/)\<close>\<close>

text \<open>
  \<open>blankTail cs\<close> matches \<open>\s*\n\<close> at the head of \<open>cs\<close>, the way a backtracking matcher
  does: \<open>\s*\<close> is greedy, so it first takes the next white-space character and goes on;
  only when that fails does it stop here and ask for the line feed. The result is the
  input left after the match.
\<close>

fun blankTail :: "jsstring \<Rightarrow> jsstring option" where
  "blankTail [] = None"
| "blankTail (c # cs) =
     (if isWhiteSpace c
      then (case blankTail cs of
              Some r \<Rightarrow> Some r
            | None \<Rightarrow> if c = LF then Some cs else None)
      else None)"

lemma blankTail_length: "blankTail cs = Some r \<Longrightarrow> length r \<le> length cs"
  by (induction cs arbitrary: r) (auto split: if_splits option.splits simp: le_Suc_eq)

text \<open>
  \<open>splitParagraphs cur s\<close>: \<open>cur\<close> holds (reversed) the characters since the last
  separator. At each position the separator is tried; where it matches, the piece is
  emitted and the scan resumes after the match. The last piece is always emitted.
\<close>

function splitParagraphs :: "jsstring \<Rightarrow> jsstring \<Rightarrow> jsstring list" where
  "splitParagraphs cur [] = [rev cur]"
| "splitParagraphs cur (c # cs) =
     (if c = LF
      then (case blankTail cs of
              Some r \<Rightarrow> rev cur # splitParagraphs [] r
            | None \<Rightarrow> splitParagraphs (c # cur) cs)
      else splitParagraphs (c # cur) cs)"
  by pat_completeness auto
termination
  by (relation "measure (\<lambda>(cur, s). length s)") (auto dest: blankTail_length)

subsection \<open>\<open>splitIntoSentences\<close>\<close>

definition isTerminator :: "jschar \<Rightarrow> bool" where
  "isTerminator c \<longleftrightarrow>
     c = 0x2E \<or> c = 0x21 \<or> c = 0x3F \<or> c = 0x3002 \<or> c = 0xFF01 \<or> c = 0xFF1F"

text \<open>
  One match of \<open>/[^.!?\<dots>]+[.!?\<dots>]+/\<close> starting exactly at the head of \<open>s\<close>: the longest
  run of non-terminators, which must not be empty, then the longest run of terminators,
  which must not be empty either. (A shorter first run is followed by a non-terminator,
  so backtracking finds nothing else.) Returns the match and the input after it.
\<close>

definition matchSentenceAt :: "jsstring \<Rightarrow> (jsstring \<times> jsstring) option" where
  "matchSentenceAt s =
     (let body = takeWhile (\<lambda>c. \<not> isTerminator c) s;
          rest = dropWhile (\<lambda>c. \<not> isTerminator c) s;
          marks = takeWhile isTerminator rest
      in if body = [] \<or> marks = [] then None
         else Some (body @ marks, dropWhile isTerminator rest))"

lemma matchSentenceAt_length:
  "matchSentenceAt s = Some (m, r) \<Longrightarrow> length r < length s"
proof -
  assume a: "matchSentenceAt s = Some (m, r)"
  let ?rest = "dropWhile (\<lambda>c. \<not> isTerminator c) s"
  from a have b: "takeWhile (\<lambda>c. \<not> isTerminator c) s \<noteq> []" and r: "r = dropWhile isTerminator ?rest"
    by (auto simp: matchSentenceAt_def Let_def split: if_splits)
  have "length r \<le> length ?rest"
    unfolding r by (rule length_dropWhile_le)
  moreover have "length ?rest < length s"
    using b by (cases s) (auto simp: le_imp_less_Suc length_dropWhile_le split: if_splits)
  ultimately show ?thesis by simp
qed

text \<open>
  \<open>text.match(/\<dots>/g)\<close>: all matches from left to right. The matcher is tried at each
  position in turn; after a match the scan resumes at its end. No match at all gives
  \<open>null\<close>, which the source replaces by the empty array.
\<close>

function matchSentences :: "jsstring \<Rightarrow> jsstring list" where
  "matchSentences [] = []"
| "matchSentences (c # cs) =
     (case matchSentenceAt (c # cs) of
        Some (m, r) \<Rightarrow> m # matchSentences r
      | None \<Rightarrow> matchSentences cs)"
  by pat_completeness auto
termination
  by (relation "measure length") (auto dest: matchSentenceAt_length)

definition splitIntoSentences :: "jsstring \<Rightarrow> jsstring list" where
  "splitIntoSentences text =
     (let sentences = matchSentences text;
          matchedLength = length (concat sentences);
          sentences' =
            (if matchedLength < length text
             then (let remaining = trim (drop matchedLength text)
                   in if remaining \<noteq> [] then sentences @ [remaining] else sentences)
             else sentences)
      in filter (\<lambda>s. length s > 0) (map trim sentences'))"

subsection \<open>\<open>chunkText\<close>\<close>

text \<open>
  The two loops of \<open>chunkText\<close> thread the array \<open>chunks\<close> and the running buffer
  (\<open>sentenceChunk\<close>, \<open>currentChunk\<close>). \<open>totalTokens\<close> is only logged and is left out.
  \<open>chunkSize\<close> and \<open>overlapSize\<close> are natural numbers: the callers pass 1000/100 and
  1500/150.
\<close>

fun packSentences ::
  "nat \<Rightarrow> jsstring list \<Rightarrow> jsstring list \<times> jsstring \<Rightarrow> jsstring list \<times> jsstring" where
  "packSentences chunkSize [] st = st"
| "packSentences chunkSize (sentence # rest) (chunks, sentenceChunk) =
     (if length (sentenceChunk @ js '' '' @ sentence) \<le> chunkSize
      then packSentences chunkSize rest
             (chunks, if sentenceChunk \<noteq> [] then sentenceChunk @ js '' '' @ sentence else sentence)
      else packSentences chunkSize rest
             (if trim sentenceChunk \<noteq> [] then chunks @ [trim sentenceChunk] else chunks,
              sentence))"

definition paragraphSep :: jsstring where
  "paragraphSep = [LF, LF]"

fun packParagraphs ::
  "nat \<Rightarrow> jsstring list \<Rightarrow> jsstring list \<times> jsstring \<Rightarrow> jsstring list \<times> jsstring" where
  "packParagraphs chunkSize [] st = st"
| "packParagraphs chunkSize (paragraph # rest) (chunks, currentChunk) =
     (let trimmedParagraph = trim paragraph
      in if length (currentChunk @ paragraphSep @ trimmedParagraph) \<le> chunkSize
         then packParagraphs chunkSize rest
                (chunks,
                 if currentChunk \<noteq> [] then currentChunk @ paragraphSep @ trimmedParagraph
                 else trimmedParagraph)
         else
           (let chunks1 = (if trim currentChunk \<noteq> [] then chunks @ [trim currentChunk] else chunks)
            in if length trimmedParagraph > chunkSize
               then (case packSentences chunkSize (splitIntoSentences trimmedParagraph) (chunks1, [])
                     of (chunks2, sentenceChunk) \<Rightarrow>
                       packParagraphs chunkSize rest
                         (chunks2, if trim sentenceChunk \<noteq> [] then trim sentenceChunk else []))
               else packParagraphs chunkSize rest (chunks1, trimmedParagraph)))"

definition paragraphsOf :: "jsstring \<Rightarrow> jsstring list" where
  "paragraphsOf text = filter (\<lambda>p. length (trim p) > 0) (splitParagraphs [] text)"

text \<open>The array \<open>chunks\<close> as it stands at line 88, before the overlap is added.\<close>

definition coreChunks :: "jsstring \<Rightarrow> nat \<Rightarrow> jsstring list" where
  "coreChunks text chunkSize =
     (case packParagraphs chunkSize (paragraphsOf text) ([], []) of
        (chunks, currentChunk) \<Rightarrow>
          if trim currentChunk \<noteq> [] then chunks @ [trim currentChunk] else chunks)"

definition addOverlapToChunks :: "jsstring list \<Rightarrow> nat \<Rightarrow> jsstring list" where
  "addOverlapToChunks chunks overlapSize =
     map (\<lambda>i. if i > 0
               then (let prevChunk = chunks ! (i - 1);
                         overlap = drop (max 0 (length prevChunk - overlapSize)) prevChunk
                     in overlap @ paragraphSep @ chunks ! i)
               else chunks ! i)
         [0 ..< length chunks]"

definition chunkText :: "jsstring \<Rightarrow> nat \<Rightarrow> nat \<Rightarrow> jsstring list" where
  "chunkText text chunkSize overlapSize =
     (if text = [] \<or> length (trim text) = 0 then []
      else (let chunks = coreChunks text chunkSize
            in if overlapSize > 0 \<and> length chunks > 1
               then addOverlapToChunks chunks overlapSize
               else filter (\<lambda>chunk. length (trim chunk) > 0) chunks))"

section \<open>pgClient.ts: retrieval\<close>

subsection \<open>Numbers as text\<close>

text \<open>
  \<open>Number.prototype.toString\<close> on an integer, as \<open>row.id.toString()\<close> and the template
  \<open>${index + 1}\<close> use it: decimal digits, most significant first, a minus sign for a
  negative number.
\<close>

definition digit :: "nat \<Rightarrow> jschar" where
  "digit d = of_nat (48 + d)"

fun natToString :: "nat \<Rightarrow> jsstring" where
  "natToString n = (if n < 10 then [digit n] else natToString (n div 10) @ [digit (n mod 10)])"

declare natToString.simps [simp del]

definition intToString :: "int \<Rightarrow> jsstring" where
  "intToString k = (if k < 0 then js ''-'' @ natToString (nat (- k)) else natToString (nat k))"

subsection \<open>The collaborators\<close>

text \<open>
  A row of the table \<open>documents\<close>, with the columns the search reads. Every \<open>INSERT\<close> of
  \<open>pgClient.ts\<close> stores an embedding, so a row has one. \<open>'v\<close> is the type of vectors.
\<close>

record 'v document =
  doc_id :: int
  content :: jsstring
  embedding :: 'v

text \<open>
  A row of a query result, with the columns the code reads: \<open>id\<close>, \<open>content\<close> and
  \<open>similarity\<close>, the value of the expression \<open>1 - (embedding <=> $1)\<close> that both
  statements select. The similarity is a real number: the value of a finite double. (NaN,
  the similarity to a zero vector, is outside the model.)
\<close>

record row =
  row_id :: int
  row_content :: jsstring
  similarity :: real

text \<open>
  What \<open>openai.chat.completions.create\<close> answers: the \<open>message.content\<close> of each choice
  (\<open>None\<close> for \<open>null\<close>) and \<open>usage?.total_tokens\<close> (\<open>None\<close> when the service reports no
  usage).
\<close>

record completion =
  choices :: "jsstring option list"
  total_tokens :: "nat option"

text \<open>
  The world outside the process, as one request sees it. A call that throws is a
  \<open>False\<close> or a \<open>None\<close>.
  \<^item> \<open>poolConnect\<close>: \<open>pool.connect()\<close> hands out a client;
  \<^item> \<open>embedText\<close>: the embedding of a text;
  \<^item> \<open>storeQuery q threshold limit\<close>: the rows that \<open>client.query\<close> resolves to, for the
    search statement with its \<open>WHERE\<close> clause (\<open>Some threshold\<close>) and for the retry statement
    without it (\<open>None\<close>). The rows are an input, they are not computed from the table:
    \<open>initDatabase\<close> creates an HNSW index on the column \<open>embedding\<close>, so
    \<open>ORDER BY embedding <=> $1 LIMIT n\<close> is an approximate nearest-neighbour search, which
    may return fewer rows than an exact one and in another order at equal distance;
  \<^item> \<open>documents\<close>: the rows of the table;
  \<^item> \<open>chatCompletion system user\<close>: the completion for the two messages;
  \<^item> \<open>numberToString\<close>: the text of a number of \<open>10^21\<close> or more, which \<open>toFixed\<close> leaves
    to \<open>Number::toString\<close>.
\<close>

record 'v env =
  poolConnect :: bool
  embedText :: "jsstring \<Rightarrow> 'v option"
  storeQuery :: "'v \<Rightarrow> real option \<Rightarrow> nat \<Rightarrow> row list option"
  documents :: "'v document list"
  chatCompletion :: "jsstring \<Rightarrow> jsstring \<Rightarrow> completion option"
  numberToString :: "real \<Rightarrow> jsstring"

text \<open>The calls a request makes to the three services, in the order it makes them.\<close>

datatype 'v call =
  PoolConnect
  | PoolRelease
  | EmbeddingCall jsstring
  | StoreQuery 'v "real option" nat
  | LanguageModelCall jsstring jsstring

datatype failure = ConnectFailed | EmbeddingFailed | QueryFailed | CompletionFailed | NoChoice

subsection \<open>\<open>searchSimilarDocuments\<close>\<close>

record searchResult =
  id' :: jsstring
  score :: real
  text' :: jsstring

definition toResult :: "row \<Rightarrow> searchResult" where
  "toResult row =
     \<lparr>id' = intToString (row_id row),
      score = similarity row,
      text' = row_content row\<rparr>"

definition searchSimilarDocuments ::
  "'v env \<Rightarrow> jsstring \<Rightarrow> nat \<Rightarrow> real \<Rightarrow> (failure + searchResult list) \<times> 'v call list" where
  "searchSimilarDocuments env query limit threshold =
     (if \<not> poolConnect env then (Inl ConnectFailed, [PoolConnect])
      else
        (case embedText env query of
           None \<Rightarrow> (Inl EmbeddingFailed, [PoolConnect, EmbeddingCall query, PoolRelease])
         | Some queryEmbedding \<Rightarrow>
             (case storeQuery env queryEmbedding (Some threshold) limit of
                None \<Rightarrow>
                  (Inl QueryFailed,
                   [PoolConnect, EmbeddingCall query,
                    StoreQuery queryEmbedding (Some threshold) limit, PoolRelease])
              | Some rows \<Rightarrow>
                  if length rows > 0
                  then (Inr (map toResult rows),
                        [PoolConnect, EmbeddingCall query,
                         StoreQuery queryEmbedding (Some threshold) limit, PoolRelease])
                  else
                    (case storeQuery env queryEmbedding None limit of
                       None \<Rightarrow>
                         (Inl QueryFailed,
                          [PoolConnect, EmbeddingCall query,
                           StoreQuery queryEmbedding (Some threshold) limit,
                           StoreQuery queryEmbedding None limit, PoolRelease])
                     | Some retryRows \<Rightarrow>
                         (Inr (map toResult retryRows),
                          [PoolConnect, EmbeddingCall query,
                           StoreQuery queryEmbedding (Some threshold) limit,
                           StoreQuery queryEmbedding None limit, PoolRelease])))))"

section \<open>pgClient.ts: answer synthesis\<close>

subsection \<open>The fixed texts\<close>

text \<open>
  The string literals of the source, as UTF-16 code units (they are Korean). In order:
  the three messages of \<open>validateQuestion\<close>; the answer when nothing was retrieved; the
  answer when the completion has no content; the three parts of a source label,
  \<open>[<source>N] (<relevance>: P%)\<close> and a line feed; the line \<open>---\<close> between two blank
  lines; the system prompt; the three parts of the user prompt around the context and
  the question.
\<close>

definition msgEmpty :: jsstring where
  "msgEmpty =
    [0xC9C8, 0xBB38, 0xC774, 0x20, 0xC785, 0xB825, 0xB418, 0xC9C0, 0x20, 0xC54A, 0xC558,
     0xC2B5, 0xB2C8, 0xB2E4]"

definition msgTooShort :: jsstring where
  "msgTooShort =
    [0xC9C8, 0xBB38, 0xC774, 0x20, 0xB108, 0xBB34, 0x20, 0xC9E7, 0xC2B5, 0xB2C8, 0xB2E4, 0x20,
     0x28, 0x35, 0xC790, 0x20, 0xC774, 0xC0C1, 0x20, 0xC785, 0xB825, 0xD574, 0xC8FC, 0xC138,
     0xC694, 0x29]"

definition msgTooLong :: jsstring where
  "msgTooLong =
    [0xC9C8, 0xBB38, 0xC774, 0x20, 0xB108, 0xBB34, 0x20, 0xAE41, 0xB2C8, 0xB2E4, 0x20, 0x28,
     0x31, 0x30, 0x30, 0x30, 0xC790, 0x20, 0xC774, 0xB0B4, 0xB85C, 0x20, 0xC785, 0xB825,
     0xD574, 0xC8FC, 0xC138, 0xC694, 0x29]"

definition noResultsAnswer :: jsstring where
  "noResultsAnswer =
    [0xC8C4, 0xC1A1, 0xD569, 0xB2C8, 0xB2E4, 0x2E, 0x20, 0xAD00, 0xB828, 0x20, 0xC815, 0xBCF4,
     0xB97C, 0x20, 0xCC3E, 0xC744, 0x20, 0xC218, 0x20, 0xC5C6, 0xC2B5, 0xB2C8, 0xB2E4, 0x2E,
     0x20, 0xC9C8, 0xBB38, 0xC744, 0x20, 0xBCC0, 0xACBD, 0xD558, 0xC5EC, 0x20, 0xB2E4, 0xC2DC,
     0x20, 0xC2DC, 0xB3C4, 0xD574, 0xC8FC, 0xC138, 0xC694, 0x2E]"

definition emptyContentAnswer :: jsstring where
  "emptyContentAnswer =
    [0xC5D0, 0xB7EC, 0xAC00, 0x20, 0xBC1C, 0xC0DD, 0xD588, 0xC2B5, 0xB2C8, 0xB2E4]"

definition sourceLabelOpen :: jsstring where
  "sourceLabelOpen =
    [0x5B, 0xC18C, 0xC2A4]"

definition sourceLabelMid :: jsstring where
  "sourceLabelMid =
    [0x5D, 0x20, 0x28, 0xAD00, 0xB828, 0xB3C4, 0x3A, 0x20]"

definition sourceLabelClose :: jsstring where
  "sourceLabelClose =
    [0x25, 0x29, 0xA]"

definition contextSep :: jsstring where
  "contextSep =
    [0xA, 0xA, 0x2D, 0x2D, 0x2D, 0xA, 0xA]"

definition systemPrompt :: jsstring where
  "systemPrompt =
    [0xB2F9, 0xC2E0, 0xC740, 0x20, 0xC81C, 0xACF5, 0xB41C, 0x20, 0xC815, 0xBCF4, 0xC5D0, 0x20,
     0xAE30, 0xBC18, 0xD558, 0xC5EC, 0x20, 0xB2F5, 0xBCC0, 0xD558, 0xB294, 0x20, 0xC804,
     0xBB38, 0x20, 0xC5B4, 0xC2DC, 0xC2A4, 0xD134, 0xD2B8, 0xC785, 0xB2C8, 0xB2E4, 0x2E, 0xA,
     0xA, 0xB2E4, 0xC74C, 0x20, 0xADDC, 0xCE59, 0xC5D0, 0x20, 0xB530, 0xB77C, 0x20, 0xB2F5,
     0xBCC0, 0xD558, 0xC138, 0xC694, 0x3A, 0xA, 0x31, 0x2E, 0x20, 0xC81C, 0xACF5, 0xB41C, 0x20,
     0xC815, 0xBCF4, 0xB97C, 0x20, 0xC6B0, 0xC120, 0xC801, 0xC73C, 0xB85C, 0x20, 0xC0AC,
     0xC6A9, 0xA, 0x32, 0x2E, 0x20, 0xC81C, 0xACF5, 0xB41C, 0x20, 0xC815, 0xBCF4, 0xC5D0, 0x20,
     0xBD80, 0xC871, 0xD55C, 0x20, 0xACBD, 0xC6B0, 0xC5D0, 0xB294, 0x20, 0xC9C0, 0xC2DD,
     0xC744, 0x20, 0xBCF4, 0xC644, 0xC801, 0xC73C, 0xB85C, 0x20, 0xC0AC, 0xC6A9, 0xD558,
     0xC5EC, 0x20, 0xB2F5, 0xBCC0, 0xC744, 0x20, 0xCDA9, 0xC2E4, 0xD788, 0x20, 0xD558, 0xC2ED,
     0xC2DC, 0xC624, 0xA, 0x33, 0x2E, 0x20, 0xC815, 0xBCF4, 0xC758, 0x20, 0xCD9C, 0xCC98,
     0xB97C, 0x20, 0xBA85, 0xD655, 0xD788, 0xD558, 0xC2ED, 0xC2DC, 0xC624, 0x20, 0x3A, 0x20,
     0xA, 0x2D, 0x20, 0xC81C, 0xACF5, 0xB41C, 0x20, 0xC815, 0xBCF4, 0xB85C, 0xBD80, 0xD130,
     0xC758, 0x20, 0xACBD, 0xC6B0, 0xB294, 0x20, 0x27, 0xC18C, 0xC2A4, 0x20, 0x58, 0xC5D0,
     0x20, 0xC758, 0xD558, 0xBA74, 0x2E, 0x2E, 0x2E, 0x27, 0xB77C, 0xACE0, 0x20, 0xBA85,
     0xAE30, 0x20, 0xA, 0x2D, 0x20, 0xB2F9, 0xC2E0, 0xC758, 0x20, 0xC9C0, 0xC2DD, 0xC73C,
     0xB85C, 0xBD80, 0xD130, 0xC758, 0x20, 0xACBD, 0xC6B0, 0xB294, 0x20, 0x27, 0xC77C, 0xBC18,
     0xC801, 0xC73C, 0xB85C, 0x2E, 0x2E, 0x2E, 0x27, 0xB098, 0x20, 0x27, 0xC54C, 0xACE0, 0x20,
     0xC788, 0xB294, 0x20, 0xACF3, 0xC5D0, 0xC11C, 0xB294, 0x2E, 0x2E, 0x2E, 0x27, 0xB77C,
     0xACE0, 0x20, 0xBA85, 0xAE30, 0xA, 0x34, 0x2E, 0x20, 0xCD94, 0xCE21, 0xC774, 0xB098, 0x20,
     0xCD94, 0xCE21, 0xC740, 0x20, 0xD53C, 0xD574, 0x2C, 0x20, 0xC0AC, 0xC2E4, 0xC5D0, 0x20,
     0xADFC, 0xAC70, 0xD574, 0x20, 0xD68C, 0xB2F5, 0xD574, 0x20, 0xC8FC, 0xC138, 0xC694, 0xA,
     0x35, 0x2E, 0x20, 0xB2F5, 0xBCC0, 0xC740, 0x20, 0xC774, 0xD574, 0xD558, 0xAE30, 0x20,
     0xC27D, 0xACE0, 0x20, 0xAD6C, 0xC870, 0xD654, 0xD558, 0xC5EC, 0x20, 0xC81C, 0xACF5,
     0xD558, 0xC2ED, 0xC2DC, 0xC624, 0x2E]"

definition userPromptHead :: jsstring where
  "userPromptHead =
    [0xB2E4, 0xC74C, 0x20, 0xC815, 0xBCF4, 0xB97C, 0x20, 0xCC38, 0xACE0, 0xD558, 0xC5EC, 0x20,
     0xC9C8, 0xBB38, 0xC5D0, 0x20, 0xB2F5, 0xBCC0, 0xD558, 0xC138, 0xC694, 0x2E, 0xA, 0xD544,
     0xC694, 0xD55C, 0x20, 0xACBD, 0xC6B0, 0x20, 0xB2F9, 0xC2E0, 0xC758, 0x20, 0xC9C0, 0xC2DD,
     0xC744, 0x20, 0xD65C, 0xC6A9, 0xD558, 0xC5EC, 0x20, 0xB2F5, 0xBCC0, 0xC744, 0x20, 0xC644,
     0xBCBD, 0xD558, 0xAC8C, 0x20, 0xD558, 0xC138, 0xC694, 0x2E, 0xA, 0xA, 0x5B, 0xCC38,
     0xACE0, 0x20, 0xC815, 0xBCF4, 0x5D, 0xA]"

definition userPromptMid :: jsstring where
  "userPromptMid =
    [0xA, 0xA, 0x5B, 0xC9C8, 0xBB38, 0x5D, 0xA]"

definition userPromptTail :: jsstring where
  "userPromptTail =
    [0xA, 0xA, 0x5B, 0xB2F5, 0xBCC0, 0x5D]"

subsection \<open>\<open>(doc.score * 100).toFixed(1)\<close>\<close>

text \<open>
  A JavaScript number is a double. \<open>binary64 x\<close> is the value of the double nearest to the
  real number \<open>x\<close>, the even significand winning a tie (IEEE 754, round to nearest even): in
  the binade of exponent \<open>e\<close> the doubles are the multiples of \<open>2^(e - 52)\<close>, and below
  \<open>2^-1022\<close> the spacing stays \<open>2^-1074\<close>. The product \<open>doc.score * 100\<close> of two doubles is
  \<open>binary64\<close> of their exact product. (A result of \<open>2^1024\<close> or more, which JavaScript
  makes \<open>Infinity\<close>, is outside the model.)

  \<open>toFixed1\<close> is \<open>Number.prototype.toFixed\<close> with one fraction digit, step by step as
  ECMAScript words it: a minus sign for a negative number; from \<open>10^21\<close> on the text of
  \<open>Number::toString\<close>; otherwise the integer \<open>n\<close> for which \<open>n / 10\<close> is nearest to the
  number, the larger of two, its decimal digits, padded with a zero when there is only
  one, and a point before the last digit.
\<close>

definition pow2 :: "int \<Rightarrow> real" where
  "pow2 e = (if 0 \<le> e then 2 ^ nat e else 1 / 2 ^ nat (- e))"

definition roundHalfEven :: "real \<Rightarrow> int" where
  "roundHalfEven q =
     (let f = \<lfloor>q\<rfloor>; r = q - of_int f
      in if r < 1 / 2 then f else if r > 1 / 2 then f + 1 else if even f then f else f + 1)"

definition binary64 :: "real \<Rightarrow> real" where
  "binary64 x =
     (if x = 0 then 0
      else (let e = max \<lfloor>log 2 \<bar>x\<bar>\<rfloor> (- 1022);
                ulp = pow2 (e - 52)
            in sgn x * of_int (roundHalfEven (\<bar>x\<bar> / ulp)) * ulp))"

definition toFixed1 :: "(real \<Rightarrow> jsstring) \<Rightarrow> real \<Rightarrow> jsstring" where
  "toFixed1 toStr x0 =
     (let s = (if x0 < 0 then js ''-'' else []);
          x = (if x0 < 0 then - x0 else x0)
      in if x \<ge> 10 ^ 21 then s @ toStr x
         else (let n = nat \<lfloor>x * 10 + 1 / 2\<rfloor>;
                   m = natToString n;
                   m' = (if length m \<le> 1 then js ''0'' @ m else m);
                   k = length m'
               in s @ take (k - 1) m' @ js ''.'' @ drop (k - 1) m'))"

subsection \<open>The context\<close>

text \<open>
  \<open>searchResults.map((doc, index) => ...)\<close>: \<open>mapIndexed f i xs\<close> applies \<open>f\<close> to each
  element and its index, counting from \<open>i\<close>. \<open>join\<close> is \<open>Array.prototype.join\<close>.
\<close>

fun mapIndexed :: "('a \<Rightarrow> nat \<Rightarrow> 'b) \<Rightarrow> nat \<Rightarrow> 'a list \<Rightarrow> 'b list" where
  "mapIndexed f i [] = []"
| "mapIndexed f i (x # xs) = f x i # mapIndexed f (i + 1) xs"

fun join :: "jsstring \<Rightarrow> jsstring list \<Rightarrow> jsstring" where
  "join sep [] = []"
| "join sep [x] = x"
| "join sep (x # y # ys) = x @ sep @ join sep (y # ys)"

definition contextBlock :: "'v env \<Rightarrow> searchResult \<Rightarrow> nat \<Rightarrow> jsstring" where
  "contextBlock env doc index =
     sourceLabelOpen @ natToString (index + 1) @ sourceLabelMid
     @ toFixed1 (numberToString env) (binary64 (score doc * 100))
     @ sourceLabelClose @ text' doc"

definition buildContext :: "'v env \<Rightarrow> searchResult list \<Rightarrow> jsstring" where
  "buildContext env searchResults = join contextSep (mapIndexed (contextBlock env) 0 searchResults)"

subsection \<open>\<open>generateRAGAnswer\<close>\<close>

record source =
  source_id :: jsstring
  source_score :: real
  source_text :: jsstring
  chunk_preview :: jsstring

record ragResponse =
  answer :: jsstring
  sources :: "source list"
  responseTime :: int
  tokensUsed :: "nat option"

text \<open>The error that the \<open>catch\<close> of \<open>generateRAGAnswer\<close> throws, around its cause.\<close>

datatype ragError = AnswerGenerationFailed failure

definition toSource :: "searchResult \<Rightarrow> source" where
  "toSource doc =
     \<lparr>source_id = id' doc,
      source_score = score doc,
      source_text = text' doc,
      chunk_preview = (if length (text' doc) > 150 then take 150 (text' doc) @ js ''...''
                       else text' doc)\<rparr>"

definition userPromptOf :: "jsstring \<Rightarrow> jsstring \<Rightarrow> jsstring" where
  "userPromptOf context question =
     userPromptHead @ context @ userPromptMid @ question @ userPromptTail"

text \<open>
  \<open>startTime\<close> is what \<open>Date.now()\<close> reads on entry, \<open>endTime\<close> what it reads when the
  response is built. \<open>a || b\<close> on strings takes \<open>b\<close> for \<open>null\<close> and for the empty string.
\<close>

definition generateRAGAnswer ::
  "'v env \<Rightarrow> jsstring \<Rightarrow> nat \<Rightarrow> int \<Rightarrow> int \<Rightarrow> (ragError + ragResponse) \<times> 'v call list" where
  "generateRAGAnswer env question maxSources startTime endTime =
     (case searchSimilarDocuments env question maxSources 0.3 of
        (Inl e, calls) \<Rightarrow> (Inl (AnswerGenerationFailed e), calls)
      | (Inr searchResults, calls) \<Rightarrow>
          if length searchResults = 0
          then (Inr \<lparr>answer = noResultsAnswer, sources = [],
                     responseTime = endTime - startTime, tokensUsed = None\<rparr>,
                calls)
          else
            (let context = buildContext env searchResults;
                 userPrompt = userPromptOf context question;
                 calls' = calls @ [LanguageModelCall systemPrompt userPrompt]
             in case chatCompletion env systemPrompt userPrompt of
                  None \<Rightarrow> (Inl (AnswerGenerationFailed CompletionFailed), calls')
                | Some response \<Rightarrow>
                    (case choices response of
                       [] \<Rightarrow> (Inl (AnswerGenerationFailed NoChoice), calls')
                     | firstContent # _ \<Rightarrow>
                         (Inr \<lparr>answer = (case firstContent of
                                           None \<Rightarrow> emptyContentAnswer
                                         | Some c \<Rightarrow> if c = [] then emptyContentAnswer else c),
                               sources = map toSource searchResults,
                               responseTime = endTime - startTime,
                               tokensUsed = total_tokens response\<rparr>,
                          calls'))))"

subsection \<open>\<open>validateQuestion\<close> and the route \<open>/api/ask\<close>\<close>

record validation =
  isValid :: bool
  message :: "jsstring option"

definition validateQuestion :: "jsstring \<Rightarrow> validation" where
  "validateQuestion question =
     (if question = [] \<or> length (trim question) = 0
      then \<lparr>isValid = False, message = Some msgEmpty\<rparr>
      else if length (trim question) < 5
      then \<lparr>isValid = False, message = Some msgTooShort\<rparr>
      else if length question > 1000
      then \<lparr>isValid = False, message = Some msgTooLong\<rparr>
      else \<lparr>isValid = True, message = None\<rparr>)"

datatype httpResponse =
  Status400 "jsstring option"
  | Status200 ragResponse
  | Status500 ragError

definition askHandler ::
  "'v env \<Rightarrow> jsstring \<Rightarrow> int \<Rightarrow> int \<Rightarrow> httpResponse \<times> 'v call list" where
  "askHandler env question startTime endTime =
     (let validation = validateQuestion question
      in if \<not> isValid validation then (Status400 (message validation), [])
         else (case generateRAGAnswer env question 3 startTime endTime of
                 (Inl e, calls) \<Rightarrow> (Status500 e, calls)
               | (Inr ragResponse, calls) \<Rightarrow> (Status200 ragResponse, calls)))"

section \<open>Vocabulary of the properties\<close>

subsection \<open>The segmenter\<close>

text \<open>
  The sentences of a paragraph as the specification words them (section 4.1, step 3):
  sentence-terminal punctuation marks the boundaries, so a sentence runs up to and
  including the next run of terminators, and an un-terminated trailing fragment is a last
  sentence. \<open>sentencesBySpec\<close> trims them and drops the empty ones, as the source does
  with its own. \<open>lastChars k s\<close> is the last \<open>k\<close> characters of \<open>s\<close>.
\<close>

lemma specSentences_decrease:
  "length (dropWhile isTerminator (dropWhile (\<lambda>c. \<not> isTerminator c) (c # cs))) < Suc (length cs)"
proof (cases "isTerminator c")
  case True
  have "length (dropWhile isTerminator cs) \<le> length cs"
    by (rule length_dropWhile_le)
  then show ?thesis
    using True by simp
next
  case False
  have "length (dropWhile isTerminator (dropWhile (\<lambda>c. \<not> isTerminator c) cs))
          \<le> length (dropWhile (\<lambda>c. \<not> isTerminator c) cs)"
    by (rule length_dropWhile_le)
  also have "\<dots> \<le> length cs"
    by (rule length_dropWhile_le)
  finally show ?thesis
    using False by simp
qed

function specSentences :: "jsstring \<Rightarrow> jsstring list" where
  "specSentences [] = []"
| "specSentences (c # cs) =
     (let body = takeWhile (\<lambda>c. \<not> isTerminator c) (c # cs);
          rest = dropWhile (\<lambda>c. \<not> isTerminator c) (c # cs)
      in (body @ takeWhile isTerminator rest) # specSentences (dropWhile isTerminator rest))"
  by pat_completeness auto
termination
  by (relation "measure length") (simp_all add: specSentences_decrease del: dropWhile.simps)

definition sentencesBySpec :: "jsstring \<Rightarrow> jsstring list" where
  "sentencesBySpec paragraph = filter (\<lambda>s. s \<noteq> []) (map trim (specSentences paragraph))"

definition lastChars :: "nat \<Rightarrow> jsstring \<Rightarrow> jsstring" where
  "lastChars k s = rev (take k (rev s))"

text \<open>
  \<open>visibleText s\<close> is \<open>s\<close> without its white space: what is left of a text once the
  separators between paragraphs and sentences, and the joins between them, are stripped.
\<close>

definition visibleText :: "jsstring \<Rightarrow> jsstring" where
  "visibleText s = filter (\<lambda>c. \<not> isWhiteSpace c) s"

text \<open>
  The loop invariant of the size bound: a buffer or a chunk either fits, or is a member
  of a set \<open>A\<close> of strings that are allowed to be longer.
\<close>

definition fits :: "nat \<Rightarrow> jsstring set \<Rightarrow> jsstring \<Rightarrow> bool" where
  "fits chunkSize A c \<longleftrightarrow> length c \<le> chunkSize \<or> c \<in> A"

text \<open>
  A second loop invariant: \<open>kept n X chunks buf\<close> says that every string of
  \<open>X\<close> longer than \<open>n\<close> has been pushed or is the running buffer. \<open>oversized n ps\<close> is
  what \<open>splitIntoSentences\<close> returns for the paragraphs of \<open>ps\<close> longer than \<open>n\<close>.
\<close>

definition kept :: "nat \<Rightarrow> jsstring set \<Rightarrow> jsstring list \<Rightarrow> jsstring \<Rightarrow> bool" where
  "kept n X chunks buf \<longleftrightarrow> (\<forall>x\<in>X. n < length x \<longrightarrow> x \<in> set chunks \<or> x = buf)"

definition oversized :: "nat \<Rightarrow> jsstring list \<Rightarrow> jsstring set" where
  "oversized n ps = {s. \<exists>p\<in>set ps. n < length (trim p) \<and> s \<in> set (splitIntoSentences (trim p))}"

subsection \<open>Retrieval and synthesis\<close>

text \<open>
  \<open>preview150\<close> is the preview as the specification words it: the text itself when it has
  at most 150 characters, otherwise its first 150 characters and the marker \<open>...\<close>.
  \<open>isLanguageModelCall\<close> picks the calls to the Language Model Service out of a trace.
  \<open>decimalValue\<close> reads a string of decimal digits back as a number.
  \<open>fromTable env rows\<close>: every row of a query result is a row of the table.
\<close>

definition preview150 :: "jsstring \<Rightarrow> jsstring" where
  "preview150 s = (if length s \<le> 150 then s else take 150 s @ js ''...'')"

definition isLanguageModelCall :: "'v call \<Rightarrow> bool" where
  "isLanguageModelCall c = (case c of LanguageModelCall s u \<Rightarrow> True | _ \<Rightarrow> False)"



subsection \<open>Two example worlds\<close>

text \<open>
  \<open>silentEnv\<close> has an empty table and a store that finds nothing. \<open>petEnv\<close> has three rows;
  its store finds nothing above a threshold and, without one, the rows 2 and 1 only, at
  similarity 0.2 and 0.1, as an approximate search may. The text of row 1 has 200
  characters. \<open>petResults\<close> is what the fallback search returns there. \<open>quizResults\<close> are
  two results with the scores 0.875 and 0.25.
\<close>

definition silentEnv :: "nat env" where
  "silentEnv =
     \<lparr>poolConnect = True, embedText = (\<lambda>t. Some (length t)),
      storeQuery = (\<lambda>q threshold limit. Some []), documents = [],
      chatCompletion = (\<lambda>s u. None), numberToString = (\<lambda>x. js ''1e+21'')\<rparr>"

definition petEnv :: "nat env" where
  "petEnv =
     \<lparr>poolConnect = True, embedText = (\<lambda>t. Some 0),
      storeQuery =
        (\<lambda>q threshold limit.
           case threshold of
             Some t \<Rightarrow> Some []
           | None \<Rightarrow>
               Some (take limit
                       [\<lparr>row_id = 2, row_content = js ''dogs bark'', similarity = 0.2\<rparr>,
                        \<lparr>row_id = 1, row_content = replicate 200 0x61, similarity = 0.1\<rparr>])),
      documents = [\<lparr>doc_id = 1, content = replicate 200 0x61, embedding = 1\<rparr>,
                   \<lparr>doc_id = 2, content = js ''dogs bark'', embedding = 2\<rparr>,
                   \<lparr>doc_id = 3, content = js ''fish swim'', embedding = 3\<rparr>],
      chatCompletion = (\<lambda>s u. Some \<lparr>choices = [Some (js ''Dogs bark.'')], total_tokens = Some 42\<rparr>),
      numberToString = (\<lambda>x. js ''1e+21'')\<rparr>"

definition petResults :: "searchResult list" where
  "petResults =
     [\<lparr>id' = js ''2'', score = 0.2, text' = js ''dogs bark''\<rparr>,
      \<lparr>id' = js ''1'', score = 0.1, text' = replicate 200 0x61\<rparr>]"


section \<open>Properties of the segmenter\<close>

subsection \<open>\<open>trim\<close>\<close>

lemma length_trim_le: "length (trim s) \<le> length s"
proof -
  let ?d = "dropWhile isWhiteSpace s"
  have "length (dropWhile isWhiteSpace (rev ?d)) \<le> length (rev ?d)"
    by (rule length_dropWhile_le)
  moreover have "length ?d \<le> length s"
    by (rule length_dropWhile_le)
  ultimately show ?thesis
    by (simp add: trim_def)
qed

lemma dropWhile_snoc_keep: "\<not> P x \<Longrightarrow> dropWhile P (ys @ [x]) = dropWhile P ys @ [x]"
  by (induction ys) auto

lemma trim_idem: "trim (trim s) = trim s"
proof (cases "dropWhile isWhiteSpace s")
  case Nil
  have t: "trim s = []"
    unfolding trim_def Nil by simp
  show ?thesis
    unfolding t by (simp add: trim_def)
next
  case (Cons x d)
  then have nx: "\<not> isWhiteSpace x"
    by (metis hd_dropWhile list.sel(1) list.distinct(1))
  have t: "trim s = x # rev (dropWhile isWhiteSpace (rev d))"
    using Cons nx by (simp add: trim_def dropWhile_snoc_keep)
  show ?thesis
    unfolding t using nx by (simp add: trim_def dropWhile_snoc_keep)
qed

lemma trim_Nil [simp]: "trim [] = []"
  by (simp add: trim_def)

lemma trim_blank: "(\<forall>c\<in>set s. isWhiteSpace c) \<Longrightarrow> trim s = []"
proof -
  assume "\<forall>c\<in>set s. isWhiteSpace c"
  then have "dropWhile isWhiteSpace s = []"
    by simp
  then show ?thesis
    by (simp add: trim_def del: dropWhile_eq_Nil_conv)
qed

lemma trim_eq_Nil_iff: "trim s = [] \<longleftrightarrow> (\<forall>c\<in>set s. isWhiteSpace c)"
proof
  assume "trim s = []"
  then have "dropWhile isWhiteSpace (rev (dropWhile isWhiteSpace s)) = []"
    by (simp add: trim_def)
  then have "\<forall>c\<in>set (dropWhile isWhiteSpace s). isWhiteSpace c"
    by (simp add: dropWhile_eq_Nil_conv)
  then have "dropWhile isWhiteSpace s = []"
    by (metis hd_dropWhile hd_in_set)
  then show "\<forall>c\<in>set s. isWhiteSpace c"
    by (simp add: dropWhile_eq_Nil_conv)
qed (rule trim_blank)

lemma splitIntoSentences_trimmed: "s \<in> set (splitIntoSentences t) \<Longrightarrow> trim s = s"
  by (auto simp: splitIntoSentences_def Let_def trim_idem split: if_splits)

lemma splitIntoSentences_nonempty: "s \<in> set (splitIntoSentences t) \<Longrightarrow> s \<noteq> []"
  by (auto simp: splitIntoSentences_def Let_def split: if_splits)


subsection \<open>The size invariant of the two loops\<close>

lemma fits_trim: "(\<forall>a\<in>A. trim a = a) \<Longrightarrow> fits n A c \<Longrightarrow> fits n A (trim c)"
  using length_trim_le [of c] by (auto simp: fits_def)

lemma fits_Nil: "fits n A []"
  by (simp add: fits_def)

lemma packSentences_fits:
  assumes "\<forall>a\<in>A. trim a = a"
  shows "set ss \<subseteq> A \<Longrightarrow> \<forall>c\<in>set chunks. fits n A c \<Longrightarrow> fits n A sc \<Longrightarrow>
         packSentences n ss (chunks, sc) = (chunks', sc') \<Longrightarrow>
         (\<forall>c\<in>set chunks'. fits n A c) \<and> fits n A sc'"
proof (induction ss arbitrary: chunks sc)
  case Nil
  then show ?case by simp
next
  case (Cons s ss)
  have sA: "fits n A s" using Cons.prems(1) by (simp add: fits_def)
  show ?case
  proof (cases "length (sc @ js '' '' @ s) \<le> n")
    case True
    let ?sc = "if sc \<noteq> [] then sc @ js '' '' @ s else s"
    have "fits n A ?sc" using True sA by (simp add: fits_def)
    moreover have "packSentences n ss (chunks, ?sc) = (chunks', sc')"
      using Cons.prems(4) True by simp
    ultimately show ?thesis
      using Cons.IH [of chunks ?sc] Cons.prems(1,2) by simp
  next
    case False
    let ?ch = "if trim sc \<noteq> [] then chunks @ [trim sc] else chunks"
    have "fits n A (trim sc)"
      using assms Cons.prems(3) by (rule fits_trim)
    then have "\<forall>c\<in>set ?ch. fits n A c"
      using Cons.prems(2) by simp
    moreover have "packSentences n ss (?ch, s) = (chunks', sc')"
      using Cons.prems(4) False by simp
    ultimately show ?thesis
      using Cons.IH [of ?ch s] Cons.prems(1) sA by simp
  qed
qed

lemma packParagraphs_fits:
  assumes A: "\<forall>a\<in>A. trim a = a"
    and sent: "\<forall>p\<in>set pars. n < length (trim p) \<longrightarrow> set (splitIntoSentences (trim p)) \<subseteq> A"
  shows "set ps \<subseteq> set pars \<Longrightarrow> \<forall>c\<in>set chunks. fits n A c \<Longrightarrow> fits n A cur \<Longrightarrow>
         packParagraphs n ps (chunks, cur) = (chunks', cur') \<Longrightarrow>
         (\<forall>c\<in>set chunks'. fits n A c) \<and> fits n A cur'"
proof (induction ps arbitrary: chunks cur)
  case Nil
  then show ?case by simp
next
  case (Cons p ps)
  let ?tp = "trim p"
  have sub: "set ps \<subseteq> set pars" and pin: "p \<in> set pars"
    using Cons.prems(1) by auto
  show ?case
  proof (cases "length (cur @ paragraphSep @ ?tp) \<le> n")
    case True
    let ?cur = "if cur \<noteq> [] then cur @ paragraphSep @ ?tp else ?tp"
    have f: "fits n A ?cur"
      using True by (simp add: fits_def)
    have e: "packParagraphs n ps (chunks, ?cur) = (chunks', cur')"
      using Cons.prems(4) True by (simp add: Let_def)
    show ?thesis
      by (rule Cons.IH [OF sub Cons.prems(2) f e])
  next
    case False
    let ?ch = "if trim cur \<noteq> [] then chunks @ [trim cur] else chunks"
    have "fits n A (trim cur)"
      using A Cons.prems(3) by (rule fits_trim)
    then have ch: "\<forall>c\<in>set ?ch. fits n A c"
      using Cons.prems(2) by simp
    show ?thesis
    proof (cases "n < length ?tp")
      case big: True
      obtain chunks2 sc where ps: "packSentences n (splitIntoSentences ?tp) (?ch, []) = (chunks2, sc)"
        by (cases "packSentences n (splitIntoSentences ?tp) (?ch, [])")
      have "set (splitIntoSentences ?tp) \<subseteq> A"
        using sent pin big by blast
      from packSentences_fits [OF A this ch fits_Nil ps]
      have c2: "\<forall>c\<in>set chunks2. fits n A c" and sc: "fits n A sc"
        by simp_all
      let ?cur = "if trim sc \<noteq> [] then trim sc else []"
      have "fits n A (trim sc)"
        using A sc by (rule fits_trim)
      then have f: "fits n A ?cur"
        by (simp add: fits_Nil)
      have e: "packParagraphs n ps (chunks2, ?cur) = (chunks', cur')"
        using Cons.prems(4) False big ps by (simp add: Let_def)
      show ?thesis
        by (rule Cons.IH [OF sub c2 f e])
    next
      case small: False
      have f: "fits n A ?tp"
        using small by (simp add: fits_def)
      have e: "packParagraphs n ps (?ch, ?tp) = (chunks', cur')"
        using Cons.prems(4) False small by (simp add: Let_def)
      show ?thesis
        by (rule Cons.IH [OF sub ch f e])
    qed
  qed
qed

subsection \<open>No chunk is blank\<close>

lemma packSentences_nonblank:
  "\<forall>c\<in>set chunks. trim c \<noteq> [] \<Longrightarrow> packSentences n ss (chunks, sc) = (chunks', sc') \<Longrightarrow>
   \<forall>c\<in>set chunks'. trim c \<noteq> []"
proof (induction ss arbitrary: chunks sc)
  case Nil
  then show ?case by simp
next
  case (Cons s ss)
  show ?case
  proof (cases "length (sc @ js '' '' @ s) \<le> n")
    case True
    then show ?thesis
      using Cons.IH [OF Cons.prems(1)] Cons.prems(2) by simp
  next
    case False
    let ?ch = "if trim sc \<noteq> [] then chunks @ [trim sc] else chunks"
    have "\<forall>c\<in>set ?ch. trim c \<noteq> []"
      using Cons.prems(1) by (simp add: trim_idem)
    moreover have "packSentences n ss (?ch, s) = (chunks', sc')"
      using Cons.prems(2) False by simp
    ultimately show ?thesis
      by (rule Cons.IH)
  qed
qed

lemma packParagraphs_nonblank:
  "\<forall>c\<in>set chunks. trim c \<noteq> [] \<Longrightarrow> packParagraphs n ps (chunks, cur) = (chunks', cur') \<Longrightarrow>
   \<forall>c\<in>set chunks'. trim c \<noteq> []"
proof (induction ps arbitrary: chunks cur)
  case Nil
  then show ?case by simp
next
  case (Cons p ps)
  let ?tp = "trim p"
  show ?case
  proof (cases "length (cur @ paragraphSep @ ?tp) \<le> n")
    case True
    then show ?thesis
      using Cons.IH [OF Cons.prems(1)] Cons.prems(2) by (simp add: Let_def)
  next
    case False
    let ?ch = "if trim cur \<noteq> [] then chunks @ [trim cur] else chunks"
    have ch: "\<forall>c\<in>set ?ch. trim c \<noteq> []"
      using Cons.prems(1) by (simp add: trim_idem)
    show ?thesis
    proof (cases "n < length ?tp")
      case big: True
      obtain chunks2 sc where ps: "packSentences n (splitIntoSentences ?tp) (?ch, []) = (chunks2, sc)"
        by (cases "packSentences n (splitIntoSentences ?tp) (?ch, [])")
      have c2: "\<forall>c\<in>set chunks2. trim c \<noteq> []"
        using packSentences_nonblank [OF ch ps] .
      have "packParagraphs n ps (chunks2, if trim sc \<noteq> [] then trim sc else []) = (chunks', cur')"
        using Cons.prems(2) False big ps by (simp add: Let_def)
      with c2 show ?thesis
        by (rule Cons.IH)
    next
      case small: False
      have "packParagraphs n ps (?ch, ?tp) = (chunks', cur')"
        using Cons.prems(2) False small by (simp add: Let_def)
      with ch show ?thesis
        by (rule Cons.IH)
    qed
  qed
qed

lemma coreChunks_nonblank: "c \<in> set (coreChunks text n) \<Longrightarrow> trim c \<noteq> []"
proof -
  assume c: "c \<in> set (coreChunks text n)"
  obtain chunks cur where pp: "packParagraphs n (paragraphsOf text) ([], []) = (chunks, cur)"
    by (cases "packParagraphs n (paragraphsOf text) ([], [])")
  have "\<forall>c\<in>set chunks. trim c \<noteq> []"
    using packParagraphs_nonblank [OF _ pp] by simp
  then show ?thesis
    using c pp by (auto simp: coreChunks_def trim_idem split: if_splits)
qed

subsection \<open>Blank text has no paragraph\<close>

lemma blankTail_set: "blankTail cs = Some r \<Longrightarrow> set r \<subseteq> set cs"
  by (induction cs arbitrary: r) (auto split: if_splits option.splits)

lemma splitParagraphs_set:
  "p \<in> set (splitParagraphs cur s) \<Longrightarrow> set p \<subseteq> set cur \<union> set s"
proof (induction cur s rule: splitParagraphs.induct)
  case (1 cur)
  then show ?case by simp
next
  case (2 cur c cs)
  show ?case
  proof (cases "c = LF")
    case False
    then show ?thesis using 2 by auto
  next
    case True
    show ?thesis
    proof (cases "blankTail cs")
      case None
      then show ?thesis using 2 True by auto
    next
      case (Some r)
      then show ?thesis
        using 2 True blankTail_set [OF Some] by auto
    qed
  qed
qed

lemma paragraphsOf_blank: "trim text = [] \<Longrightarrow> paragraphsOf text = []"
proof -
  assume "trim text = []"
  then have ws: "\<forall>c\<in>set text. isWhiteSpace c"
    by (simp add: trim_eq_Nil_iff)
  have "\<forall>p\<in>set (splitParagraphs [] text). trim p = []"
  proof
    fix p assume "p \<in> set (splitParagraphs [] text)"
    then have "set p \<subseteq> set text"
      using splitParagraphs_set by fastforce
    then show "trim p = []"
      using ws by (auto intro: trim_blank)
  qed
  then show ?thesis
    by (simp add: paragraphsOf_def filter_empty_conv)
qed

lemma coreChunks_blank: "trim text = [] \<Longrightarrow> coreChunks text n = []"
  by (simp add: coreChunks_def paragraphsOf_blank)

subsection \<open>The overlap step\<close>

lemma chunkText_core:
  "chunkText text n ov =
     (if ov > 0 \<and> length (coreChunks text n) > 1
      then addOverlapToChunks (coreChunks text n) ov
      else coreChunks text n)"
proof (cases "trim text = []")
  case True
  then have "text = [] \<or> length (trim text) = 0" by simp
  then show ?thesis
    using coreChunks_blank [OF True] by (simp add: chunkText_def)
next
  case False
  then have "text \<noteq> []" by auto
  moreover have "filter (\<lambda>chunk. length (trim chunk) > 0) (coreChunks text n) = coreChunks text n"
    using coreChunks_nonblank by (simp add: filter_id_conv)
  ultimately show ?thesis
    using False by (simp add: chunkText_def Let_def)
qed

lemma coreChunks_fits:
  "c \<in> set (coreChunks text n) \<Longrightarrow> length c \<le> n \<or> c \<in> oversized n (paragraphsOf text)"
proof -
  assume c: "c \<in> set (coreChunks text n)"
  let ?A = "oversized n (paragraphsOf text)"
  have A: "\<forall>a\<in>?A. trim a = a"
    by (auto simp: oversized_def splitIntoSentences_trimmed)
  have sent: "\<forall>p\<in>set (paragraphsOf text). n < length (trim p) \<longrightarrow>
                set (splitIntoSentences (trim p)) \<subseteq> ?A"
    by (auto simp: oversized_def)
  obtain chunks cur where pp: "packParagraphs n (paragraphsOf text) ([], []) = (chunks, cur)"
    by (cases "packParagraphs n (paragraphsOf text) ([], [])")
  have "(\<forall>c\<in>set chunks. fits n ?A c) \<and> fits n ?A cur"
    by (rule packParagraphs_fits [OF A sent _ _ fits_Nil pp]) simp_all
  then have all: "\<forall>c\<in>set chunks. fits n ?A c" and cur: "fits n ?A (trim cur)"
    using fits_trim [OF A, of n cur] by simp_all
  have "fits n ?A c"
    using c pp all cur by (auto simp: coreChunks_def split: if_splits)
  then show ?thesis
    by (simp add: fits_def)
qed

lemma addOverlapToChunks_length: "length (addOverlapToChunks chunks ov) = length chunks"
  by (simp add: addOverlapToChunks_def)

lemma addOverlapToChunks_nth:
  "i < length chunks \<Longrightarrow>
   addOverlapToChunks chunks ov ! i =
     (if i > 0 then drop (length (chunks ! (i - 1)) - ov) (chunks ! (i - 1)) @ paragraphSep @ chunks ! i
      else chunks ! i)"
proof -
  assume i: "i < length chunks"
  then have "[0 ..< length chunks] ! i = i"
    by simp
  then show ?thesis
    using i by (cases i) (simp_all add: addOverlapToChunks_def Let_def)
qed

lemma lastChars_drop: "lastChars (min k (length s)) s = drop (length s - k) s"
proof -
  have "rev (take (min k (length s)) (rev s)) = drop (length s - min k (length s)) s"
    by (simp add: rev_take)
  moreover have "length s - min k (length s) = length s - k"
    by simp
  ultimately show ?thesis
    by (simp add: lastChars_def)
qed

subsection \<open>A sentence longer than the chunk size is pushed alone\<close>

lemma kept_flush:
  assumes k: "kept n X chunks buf" and t: "\<forall>x\<in>X. trim x = x"
  shows "kept n X (if trim buf \<noteq> [] then chunks @ [trim buf] else chunks) new"
proof -
  have "x \<in> set (if trim buf \<noteq> [] then chunks @ [trim buf] else chunks)"
    if x: "x \<in> X" and big: "n < length x" for x
  proof (cases "x \<in> set chunks")
    case True
    then show ?thesis by simp
  next
    case False
    then have "x = buf"
      using k x big by (auto simp: kept_def)
    moreover have "trim x = x"
      using t x by simp
    moreover have "x \<noteq> []"
      using big by auto
    ultimately show ?thesis by simp
  qed
  then show ?thesis
    by (simp add: kept_def)
qed

lemma kept_small:
  assumes k: "kept n X chunks buf" and s: "length buf \<le> n"
  shows "kept n X chunks new"
  using assms by (auto simp: kept_def)

lemma kept_insert: "kept n X chunks buf \<Longrightarrow> kept n (insert buf X) chunks buf"
  by (simp add: kept_def)

lemma kept_insert_small: "kept n X chunks buf \<Longrightarrow> length x \<le> n \<Longrightarrow> kept n (insert x X) chunks buf"
  by (auto simp: kept_def)

lemma packSentences_kept:
  "kept n X chunks sc \<Longrightarrow> \<forall>x\<in>X \<union> set ss. trim x = x \<Longrightarrow>
   packSentences n ss (chunks, sc) = (chunks', sc') \<Longrightarrow>
   kept n (X \<union> set ss) chunks' sc'"
proof (induction ss arbitrary: X chunks sc)
  case Nil
  then show ?case by simp
next
  case (Cons s ss)
  have tX: "\<forall>x\<in>X. trim x = x" and tI: "\<forall>x\<in>insert s X \<union> set ss. trim x = x"
    using Cons.prems(2) by auto
  have eq: "X \<union> set (s # ss) = insert s X \<union> set ss"
    by auto
  show ?case
  proof (cases "length (sc @ js '' '' @ s) \<le> n")
    case True
    let ?sc = "if sc \<noteq> [] then sc @ js '' '' @ s else s"
    have small: "length sc \<le> n" "length s \<le> n"
      using True by simp_all
    have "kept n X chunks ?sc"
      using Cons.prems(1) small(1) by (rule kept_small)
    then have k: "kept n (insert s X) chunks ?sc"
      using small(2) by (rule kept_insert_small)
    have e: "packSentences n ss (chunks, ?sc) = (chunks', sc')"
      using Cons.prems(3) True by simp
    show ?thesis
      unfolding eq by (rule Cons.IH [OF k tI e])
  next
    case False
    let ?ch = "if trim sc \<noteq> [] then chunks @ [trim sc] else chunks"
    have "kept n X ?ch s"
      using Cons.prems(1) tX by (rule kept_flush)
    then have k: "kept n (insert s X) ?ch s"
      by (rule kept_insert)
    have e: "packSentences n ss (?ch, s) = (chunks', sc')"
      using Cons.prems(3) False by simp
    show ?thesis
      unfolding eq by (rule Cons.IH [OF k tI e])
  qed
qed

lemma oversized_trimmed: "\<forall>x\<in>oversized n ps. trim x = x"
  by (auto simp: oversized_def splitIntoSentences_trimmed)

lemma oversized_snoc_small: "\<not> n < length (trim p) \<Longrightarrow> oversized n (ps @ [p]) = oversized n ps"
  by (auto simp: oversized_def)

lemma oversized_snoc_big:
  "n < length (trim p) \<Longrightarrow> oversized n (ps @ [p]) = oversized n ps \<union> set (splitIntoSentences (trim p))"
  by (auto simp: oversized_def)

lemma packParagraphs_kept:
  "kept n (oversized n done) chunks cur \<Longrightarrow>
   packParagraphs n ps (chunks, cur) = (chunks', cur') \<Longrightarrow>
   kept n (oversized n (done @ ps)) chunks' cur'"
proof (induction ps arbitrary: "done" chunks cur)
  case Nil
  then show ?case by simp
next
  case (Cons p ps)
  let ?tp = "trim p"
  have eq: "done @ p # ps = (done @ [p]) @ ps"
    by simp
  note tr = oversized_trimmed [of n "done"]
  show ?case
  proof (cases "length (cur @ paragraphSep @ ?tp) \<le> n")
    case True
    let ?cur = "if cur \<noteq> [] then cur @ paragraphSep @ ?tp else ?tp"
    have small: "length cur \<le> n" "\<not> n < length ?tp"
      using True by simp_all
    have "kept n (oversized n done) chunks ?cur"
      using Cons.prems(1) small(1) by (rule kept_small)
    then have k: "kept n (oversized n (done @ [p])) chunks ?cur"
      using small(2) by (simp add: oversized_snoc_small)
    have e: "packParagraphs n ps (chunks, ?cur) = (chunks', cur')"
      using Cons.prems(2) True by (simp add: Let_def)
    show ?thesis
      unfolding eq by (rule Cons.IH [OF k e])
  next
    case False
    let ?ch = "if trim cur \<noteq> [] then chunks @ [trim cur] else chunks"
    show ?thesis
    proof (cases "n < length ?tp")
      case big: True
      let ?ss = "splitIntoSentences ?tp"
      obtain chunks2 sc where ps: "packSentences n ?ss (?ch, []) = (chunks2, sc)"
        by (cases "packSentences n ?ss (?ch, [])")
      have k0: "kept n (oversized n done) ?ch []"
        using Cons.prems(1) tr by (rule kept_flush)
      have t2: "\<forall>x\<in>oversized n done \<union> set ?ss. trim x = x"
        using tr by (auto simp: splitIntoSentences_trimmed)
      have k1: "kept n (oversized n done \<union> set ?ss) chunks2 sc"
        using k0 t2 ps by (rule packSentences_kept)
      let ?cur = "if trim sc \<noteq> [] then trim sc else []"
      have "kept n (oversized n done \<union> set ?ss) chunks2 ?cur"
      proof -
        have "x \<in> set chunks2 \<or> x = ?cur"
          if x: "x \<in> oversized n done \<union> set ?ss" and bigx: "n < length x" for x
        proof (cases "x \<in> set chunks2")
          case True
          then show ?thesis by simp
        next
          case False
          then have "x = sc"
            using k1 x bigx by (auto simp: kept_def)
          moreover have "trim x = x"
            using t2 x by simp
          moreover have "x \<noteq> []"
            using bigx by auto
          ultimately show ?thesis by simp
        qed
        then show ?thesis
          by (simp add: kept_def)
      qed
      then have k: "kept n (oversized n (done @ [p])) chunks2 ?cur"
        using big by (simp add: oversized_snoc_big)
      have e: "packParagraphs n ps (chunks2, ?cur) = (chunks', cur')"
        using Cons.prems(2) False big ps by (simp add: Let_def)
      show ?thesis
        unfolding eq by (rule Cons.IH [OF k e])
    next
      case small: False
      have "kept n (oversized n done) ?ch ?tp"
        using Cons.prems(1) tr by (rule kept_flush)
      then have k: "kept n (oversized n (done @ [p])) ?ch ?tp"
        using small by (simp add: oversized_snoc_small)
      have e: "packParagraphs n ps (?ch, ?tp) = (chunks', cur')"
        using Cons.prems(2) False small by (simp add: Let_def)
      show ?thesis
        unfolding eq by (rule Cons.IH [OF k e])
    qed
  qed
qed

lemma coreChunks_kept:
  assumes "s \<in> oversized n (paragraphsOf text)" and "n < length s"
  shows "s \<in> set (coreChunks text n)"
proof -
  obtain chunks cur where pp: "packParagraphs n (paragraphsOf text) ([], []) = (chunks, cur)"
    by (cases "packParagraphs n (paragraphsOf text) ([], [])")
  have "kept n (oversized n []) [] []"
    by (simp add: kept_def oversized_def)
  from packParagraphs_kept [OF this pp]
  have k: "kept n (oversized n (paragraphsOf text)) chunks cur"
    by simp
  have sx: "s \<in> oversized n (paragraphsOf text)"
    using assms(1) .
  then have ts: "trim s = s"
    using oversized_trimmed by blast
  have "s \<in> set chunks \<or> s = cur"
    using k sx assms(2) by (auto simp: kept_def)
  moreover have "s \<noteq> []"
    using assms(2) by auto
  ultimately show ?thesis
    using pp ts by (auto simp: coreChunks_def)
qed

subsection \<open>Overlap\<close>

text \<open>
  Claim C4. With \<open>overlapSize > 0\<close> and at least two chunks, the first chunk is returned
  unchanged and every later chunk is the last \<open>min overlapSize (length prev)\<close> characters
  of the chunk before it, taken from that chunk's text before any overlap was added, then
  a blank line (two line feeds), then the chunk's own text.
\<close>

theorem chunkText_overlap:
  assumes "overlapSize > 0" and "length (coreChunks text chunkSize) \<ge> 2"
  shows "length (chunkText text chunkSize overlapSize) = length (coreChunks text chunkSize) \<and>
         chunkText text chunkSize overlapSize ! 0 = coreChunks text chunkSize ! 0 \<and>
         (\<forall>i. 0 < i \<and> i < length (coreChunks text chunkSize) \<longrightarrow>
            chunkText text chunkSize overlapSize ! i =
              lastChars (min overlapSize (length (coreChunks text chunkSize ! (i - 1))))
                        (coreChunks text chunkSize ! (i - 1))
              @ [LF, LF] @ coreChunks text chunkSize ! i)"
proof -
  have c: "chunkText text chunkSize overlapSize = addOverlapToChunks (coreChunks text chunkSize) overlapSize"
    using assms by (simp add: chunkText_core)
  have "0 < length (coreChunks text chunkSize)"
    using assms(2) by linarith
  then have "addOverlapToChunks (coreChunks text chunkSize) overlapSize ! 0 = coreChunks text chunkSize ! 0"
    by (simp add: addOverlapToChunks_nth)
  then show ?thesis
    unfolding c
    by (simp add: addOverlapToChunks_length addOverlapToChunks_nth lastChars_drop paragraphSep_def)
qed

theorem chunkText_overlap_witness:
  "(0::nat) < 2 \<and>
   coreChunks (js ''ab. cd! ef\<newline>\<newline>gh\<newline>\<newline>ij'') 6 = [js ''ab.'', js ''cd! ef'', js ''gh'' @ [LF, LF] @ js ''ij''] \<and>
   chunkText (js ''ab. cd! ef\<newline>\<newline>gh\<newline>\<newline>ij'') 6 2 ! 0 = js ''ab.'' \<and>
   chunkText (js ''ab. cd! ef\<newline>\<newline>gh\<newline>\<newline>ij'') 6 2 ! 1 = js ''b.'' @ [LF, LF] @ js ''cd! ef'' \<and>
   chunkText (js ''ab. cd! ef\<newline>\<newline>gh\<newline>\<newline>ij'') 6 2 ! 2 = js ''ef'' @ [LF, LF] @ js ''gh'' @ [LF, LF] @ js ''ij''"
proof -
  let ?T = "js ''ab. cd! ef\<newline>\<newline>gh\<newline>\<newline>ij''"
  have h: "(0::nat) < 2" by simp
  have core: "coreChunks ?T 6 = [js ''ab.'', js ''cd! ef'', js ''gh'' @ [LF, LF] @ js ''ij'']"
    by code_simp
  then have l: "length (coreChunks ?T 6) \<ge> 2"
    by simp
  have l1: "lastChars (min 2 (length (js ''ab.''))) (js ''ab.'') = js ''b.''"
    by code_simp
  have l2: "lastChars (min 2 (length (js ''cd! ef''))) (js ''cd! ef'') = js ''ef''"
    by code_simp
  note t = chunkText_overlap [OF h l]
  from t have c0: "chunkText ?T 6 2 ! 0 = js ''ab.''"
    using core by simp
  from t have "chunkText ?T 6 2 ! 1 =
      lastChars (min 2 (length (coreChunks ?T 6 ! (1 - 1)))) (coreChunks ?T 6 ! (1 - 1))
      @ [LF, LF] @ coreChunks ?T 6 ! 1"
    using core by simp
  then have c1: "chunkText ?T 6 2 ! 1 = js ''b.'' @ [LF, LF] @ js ''cd! ef''"
    using core l1 by simp
  from t have "chunkText ?T 6 2 ! 2 =
      lastChars (min 2 (length (coreChunks ?T 6 ! (2 - 1)))) (coreChunks ?T 6 ! (2 - 1))
      @ [LF, LF] @ coreChunks ?T 6 ! 2"
    using core by simp
  then have c2: "chunkText ?T 6 2 ! 2 = js ''ef'' @ [LF, LF] @ js ''gh'' @ [LF, LF] @ js ''ij''"
    using core l2 by simp
  show ?thesis
    using h core c0 c1 c2 by blast
qed

subsection \<open>Blank input\<close>

text \<open>
  Claim C9. \<open>chunkText\<close> is a total function: the source has no \<open>throw\<close> and every
  array read of \<open>addOverlapToChunks\<close> is in range, so the model has no error branch.
  For the empty string and for a string of white space only it returns the empty sequence,
  whatever the chunk size and the overlap size.
\<close>

theorem chunkText_blank:
  assumes "\<forall>c\<in>set text. isWhiteSpace c"
  shows "chunkText text chunkSize overlapSize = []"
proof -
  have "trim text = []"
    using assms by (rule trim_blank)
  then show ?thesis
    by (simp add: chunkText_def)
qed

theorem chunkText_blank_witness:
  "chunkText [] 1000 100 = [] \<and> chunkText (js '' \<newline>\<newline>  '' @ [0x3000, 0x9]) 1000 100 = []"
proof -
  have a: "\<forall>c\<in>set ([]::jsstring). isWhiteSpace c"
    by simp
  have b: "\<forall>c\<in>set (js '' \<newline>\<newline>  '' @ [0x3000, 0x9]). isWhiteSpace c"
    by (simp add: js_def isWhiteSpace_def)
  show ?thesis
    using chunkText_blank [OF a, of 1000 100] chunkText_blank [OF b, of 1000 100] by simp
qed

subsection \<open>White space apart, the chunks are the text\<close>

text \<open>
  The split into paragraphs, the split into sentences and the two packing loops only
  remove or insert white space, as long as no paragraph that has to be split into
  sentences begins with a sentence terminator.
\<close>

lemma visibleText_append: "visibleText (xs @ ys) = visibleText xs @ visibleText ys"
  by (simp add: visibleText_def)

lemma visibleText_dropWhile: "visibleText (dropWhile isWhiteSpace s) = visibleText s"
  by (induction s) (simp_all add: visibleText_def)

lemma visibleText_rev: "visibleText (rev s) = rev (visibleText s)"
  by (simp add: visibleText_def rev_filter)

lemma visibleText_trim: "visibleText (trim s) = visibleText s"
  by (simp add: trim_def visibleText_rev visibleText_dropWhile)

lemma visibleText_Nil_iff: "visibleText s = [] \<longleftrightarrow> trim s = []"
  by (simp add: trim_eq_Nil_iff visibleText_def filter_empty_conv)

lemma visibleText_blankTail: "blankTail cs = Some r \<Longrightarrow> visibleText r = visibleText cs"
proof (induction cs arbitrary: r)
  case Nil
  then show ?case by simp
next
  case (Cons c cs)
  then have ws: "isWhiteSpace c"
    by (simp split: if_splits)
  show ?case
  proof (cases "blankTail cs")
    case None
    then have "r = cs"
      using Cons.prems ws by (simp split: if_splits)
    then show ?thesis
      using ws by (simp add: visibleText_def)
  next
    case (Some r')
    then have "r = r'"
      using Cons.prems ws by simp
    then have "visibleText r = visibleText cs"
      using Cons.IH Some by simp
    then show ?thesis
      using ws by (simp add: visibleText_def)
  qed
qed

lemma LF_isWhiteSpace: "isWhiteSpace LF"
  by (simp add: isWhiteSpace_def LF_def)

lemma visibleText_splitParagraphs:
  "visibleText (concat (splitParagraphs cur s)) = visibleText (rev cur @ s)"
proof (induction cur s rule: splitParagraphs.induct)
  case (1 cur)
  then show ?case by simp
next
  case (2 cur c cs)
  show ?case
  proof (cases "c = LF")
    case False
    then show ?thesis
      using "2.IH"(3) [OF False] by simp
  next
    case True
    then have vc: "visibleText (c # cs) = visibleText cs"
      using LF_isWhiteSpace by (simp add: visibleText_def)
    show ?thesis
    proof (cases "blankTail cs")
      case None
      then show ?thesis
        using "2.IH"(1) [OF True None] True by simp
    next
      case (Some r)
      have "visibleText (concat (splitParagraphs [] r)) = visibleText r"
        using "2.IH"(2) [OF True Some] by simp
      then have "visibleText (concat (splitParagraphs cur (c # cs))) = visibleText (rev cur) @ visibleText r"
        using True Some by (simp add: visibleText_append)
      also have "\<dots> = visibleText (rev cur) @ visibleText (c # cs)"
        using visibleText_blankTail [OF Some] vc by simp
      finally show ?thesis
        by (simp add: visibleText_append)
    qed
  qed
qed

lemma visibleText_concat_nonblank:
  "visibleText (concat (filter (\<lambda>p. length (trim p) > 0) ps)) = visibleText (concat ps)"
proof (induction ps)
  case Nil
  then show ?case by simp
next
  case (Cons p ps)
  show ?case
  proof (cases "trim p = []")
    case True
    then have "visibleText p = []"
      by (simp add: visibleText_Nil_iff)
    then show ?thesis
      using Cons True by (simp add: visibleText_append)
  next
    case False
    then show ?thesis
      using Cons by (simp add: visibleText_append)
  qed
qed

lemma visibleText_paragraphsOf: "visibleText (concat (paragraphsOf text)) = visibleText text"
  unfolding paragraphsOf_def visibleText_concat_nonblank
  by (simp add: visibleText_splitParagraphs)

lemma visibleText_concat_trimmed:
  "visibleText (concat (filter (\<lambda>s. length s > 0) (map trim xs))) = visibleText (concat xs)"
proof (induction xs)
  case Nil
  then show ?case by simp
next
  case (Cons x xs)
  show ?case
  proof (cases "trim x = []")
    case True
    then have "visibleText x = []"
      by (simp add: visibleText_Nil_iff)
    then show ?thesis
      using Cons True by (simp add: visibleText_append)
  next
    case False
    then show ?thesis
      using Cons by (simp add: visibleText_append visibleText_trim)
  qed
qed

lemma matchSentenceAt_no_terminator:
  "\<forall>c\<in>set s. \<not> isTerminator c \<Longrightarrow> matchSentenceAt s = None"
proof -
  assume "\<forall>c\<in>set s. \<not> isTerminator c"
  then have "dropWhile (\<lambda>c. \<not> isTerminator c) s = []"
    by simp
  then show ?thesis
    by (simp add: matchSentenceAt_def Let_def del: dropWhile_eq_Nil_conv)
qed

lemma matchSentences_no_terminator:
  "\<forall>c\<in>set s. \<not> isTerminator c \<Longrightarrow> matchSentences s = []"
proof (induction s)
  case Nil
  then show ?case by simp
next
  case (Cons c cs)
  have "matchSentenceAt (c # cs) = None"
    using Cons.prems by (rule matchSentenceAt_no_terminator)
  moreover have "matchSentences cs = []"
    using Cons by simp
  ultimately show ?case by simp
qed

lemma matchSentenceAt_Some:
  assumes "matchSentenceAt s = Some (m, r)"
  shows "s = m @ r \<and> (r = [] \<or> \<not> isTerminator (hd r))"
proof -
  let ?body = "takeWhile (\<lambda>c. \<not> isTerminator c) s"
  let ?rest = "dropWhile (\<lambda>c. \<not> isTerminator c) s"
  have m: "m = ?body @ takeWhile isTerminator ?rest" and r: "r = dropWhile isTerminator ?rest"
    using assms by (auto simp: matchSentenceAt_def Let_def split: if_splits)
  have "s = ?body @ ?rest"
    by simp
  also have "?rest = takeWhile isTerminator ?rest @ dropWhile isTerminator ?rest"
    by simp
  finally have "s = m @ r"
    unfolding m r by simp
  moreover have "r = [] \<or> \<not> isTerminator (hd r)"
    unfolding r using hd_dropWhile [of isTerminator ?rest] by blast
  ultimately show ?thesis by simp
qed

lemma matchSentenceAt_None:
  assumes "matchSentenceAt s = None" and "s \<noteq> []" and "\<not> isTerminator (hd s)"
  shows "\<forall>c\<in>set s. \<not> isTerminator c"
proof -
  let ?body = "takeWhile (\<lambda>c. \<not> isTerminator c) s"
  let ?rest = "dropWhile (\<lambda>c. \<not> isTerminator c) s"
  have "?body \<noteq> []"
    using assms(2,3) by (cases s) simp_all
  then have "takeWhile isTerminator ?rest = []"
    using assms(1) by (simp add: matchSentenceAt_def Let_def split: if_splits)
  then have "?rest = [] \<or> \<not> isTerminator (hd ?rest)"
    by (cases ?rest) (simp_all split: if_splits)
  moreover have "?rest \<noteq> [] \<Longrightarrow> isTerminator (hd ?rest)"
    using hd_dropWhile [of "\<lambda>c. \<not> isTerminator c" s] by simp
  ultimately have "?rest = []"
    by blast
  then show ?thesis
    by (simp add: dropWhile_eq_Nil_conv)
qed

lemma matchSentences_prefix:
  "s = [] \<or> \<not> isTerminator (hd s) \<Longrightarrow> \<exists>rem. s = concat (matchSentences s) @ rem"
proof (induction s rule: matchSentences.induct)
  case 1
  then show ?case by simp
next
  case (2 c cs)
  then have nt: "\<not> isTerminator (hd (c # cs))"
    by simp
  show ?case
  proof (cases "matchSentenceAt (c # cs)")
    case None
    then have "\<forall>x\<in>set (c # cs). \<not> isTerminator x"
      using nt by (intro matchSentenceAt_None) simp_all
    then have "matchSentences cs = []"
      by (intro matchSentences_no_terminator) simp
    then show ?thesis
      using None by simp
  next
    case (Some mr)
    obtain m r where mr: "mr = (m, r)"
      by (cases mr)
    have sp: "c # cs = m @ r" and hr: "r = [] \<or> \<not> isTerminator (hd r)"
      using matchSentenceAt_Some [of "c # cs" m r] Some mr by simp_all
    obtain rem where "r = concat (matchSentences r) @ rem"
      using "2.IH"(2) [OF Some mr [symmetric] hr] by blast
    then have e: "c # cs = concat (m # matchSentences r) @ rem"
      using sp by simp
    have "matchSentences (c # cs) = m # matchSentences r"
      using Some mr by simp
    then show ?thesis
      using e by (intro exI [of _ rem]) (simp only:)
  qed
qed

lemma visibleText_splitIntoSentences:
  assumes "s = [] \<or> \<not> isTerminator (hd s)"
  shows "visibleText (concat (splitIntoSentences s)) = visibleText s"
proof -
  let ?ms = "matchSentences s"
  obtain rem where s: "s = concat ?ms @ rem"
    using matchSentences_prefix [OF assms] by blast
  have d: "drop (length (concat ?ms)) s = rem"
    by (subst s) simp
  have l: "length (concat ?ms) < length s \<longleftrightarrow> rem \<noteq> []"
    by (subst (2) s) auto
  let ?sent = "if rem \<noteq> [] \<and> trim rem \<noteq> [] then ?ms @ [trim rem] else ?ms"
  have "splitIntoSentences s = filter (\<lambda>s. length s > 0) (map trim ?sent)"
    using d l by (simp add: splitIntoSentences_def Let_def)
  then have "visibleText (concat (splitIntoSentences s)) = visibleText (concat ?sent)"
    by (simp only: visibleText_concat_trimmed)
  also have "\<dots> = visibleText (concat ?ms) @ visibleText rem"
  proof (cases "trim rem = []")
    case True
    then have "visibleText rem = []"
      by (simp add: visibleText_Nil_iff)
    then show ?thesis
      using True by simp
  next
    case False
    then have "rem \<noteq> []"
      by auto
    then show ?thesis
      using False by (simp add: visibleText_append visibleText_trim)
  qed
  also have "\<dots> = visibleText s"
    using arg_cong [OF s, of visibleText] by (simp add: visibleText_append)
  finally show ?thesis .
qed

lemma visibleText_Nil [simp]: "visibleText [] = []"
  by (simp add: visibleText_def)

lemma visibleText_flush:
  "visibleText (concat (if trim buf \<noteq> [] then chunks @ [trim buf] else chunks))
     = visibleText (concat chunks) @ visibleText buf"
proof (cases "trim buf = []")
  case True
  then have "visibleText buf = []"
    by (simp add: visibleText_Nil_iff)
  then show ?thesis
    using True by simp
next
  case False
  then show ?thesis
    by (simp add: visibleText_append visibleText_trim)
qed

lemma visibleText_space: "visibleText (js '' '') = []"
  by (simp add: visibleText_def js_def isWhiteSpace_def)

lemma visibleText_paragraphSep: "visibleText paragraphSep = []"
  by (simp add: visibleText_def paragraphSep_def LF_isWhiteSpace)

lemma visibleText_packSentences:
  "packSentences n ss (chunks, sc) = (chunks', sc') \<Longrightarrow>
   visibleText (concat chunks') @ visibleText sc'
     = visibleText (concat chunks) @ visibleText sc @ visibleText (concat ss)"
proof (induction ss arbitrary: chunks sc)
  case Nil
  then show ?case by simp
next
  case (Cons s ss)
  show ?case
  proof (cases "length (sc @ js '' '' @ s) \<le> n")
    case True
    let ?sc = "if sc \<noteq> [] then sc @ js '' '' @ s else s"
    have e: "packSentences n ss (chunks, ?sc) = (chunks', sc')"
      using Cons.prems True by simp
    have "visibleText ?sc = visibleText sc @ visibleText s"
      by (simp add: visibleText_append visibleText_space)
    then show ?thesis
      using Cons.IH [OF e] by (simp add: visibleText_append)
  next
    case False
    let ?ch = "if trim sc \<noteq> [] then chunks @ [trim sc] else chunks"
    have e: "packSentences n ss (?ch, s) = (chunks', sc')"
      using Cons.prems False by simp
    show ?thesis
      using Cons.IH [OF e] by (simp only: visibleText_flush concat.simps visibleText_append append_assoc)
  qed
qed

lemma visibleText_packParagraphs:
  "\<forall>p\<in>set ps. n < length (trim p) \<longrightarrow> \<not> isTerminator (hd (trim p)) \<Longrightarrow>
   packParagraphs n ps (chunks, cur) = (chunks', cur') \<Longrightarrow>
   visibleText (concat chunks') @ visibleText cur'
     = visibleText (concat chunks) @ visibleText cur @ visibleText (concat ps)"
proof (induction ps arbitrary: chunks cur)
  case Nil
  then show ?case by simp
next
  case (Cons p ps)
  let ?tp = "trim p"
  have rest: "\<forall>p\<in>set ps. n < length (trim p) \<longrightarrow> \<not> isTerminator (hd (trim p))"
    using Cons.prems(1) by simp
  have vp: "visibleText (concat (p # ps)) = visibleText ?tp @ visibleText (concat ps)"
    by (simp add: visibleText_append visibleText_trim)
  show ?case
  proof (cases "length (cur @ paragraphSep @ ?tp) \<le> n")
    case True
    let ?cur = "if cur \<noteq> [] then cur @ paragraphSep @ ?tp else ?tp"
    have e: "packParagraphs n ps (chunks, ?cur) = (chunks', cur')"
      using Cons.prems(2) True by (simp add: Let_def)
    have "visibleText ?cur = visibleText cur @ visibleText ?tp"
      by (simp add: visibleText_append visibleText_paragraphSep)
    then show ?thesis
      using Cons.IH [OF rest e] unfolding vp by simp
  next
    case False
    let ?ch = "if trim cur \<noteq> [] then chunks @ [trim cur] else chunks"
    have vch: "visibleText (concat ?ch) = visibleText (concat chunks) @ visibleText cur"
      by (rule visibleText_flush)
    show ?thesis
    proof (cases "n < length ?tp")
      case big: True
      let ?ss = "splitIntoSentences ?tp"
      obtain chunks2 sc where ps: "packSentences n ?ss (?ch, []) = (chunks2, sc)"
        by (cases "packSentences n ?ss (?ch, [])")
      let ?cur = "if trim sc \<noteq> [] then trim sc else []"
      have e: "packParagraphs n ps (chunks2, ?cur) = (chunks', cur')"
        using Cons.prems(2) False big ps by (simp add: Let_def)
      have "\<not> isTerminator (hd ?tp)"
        using Cons.prems(1) big by simp
      then have vs: "visibleText (concat ?ss) = visibleText ?tp"
        by (intro visibleText_splitIntoSentences) simp
      have "visibleText (concat chunks2) @ visibleText sc
              = visibleText (concat ?ch) @ visibleText [] @ visibleText (concat ?ss)"
        using ps by (rule visibleText_packSentences)
      then have a: "visibleText (concat chunks2) @ visibleText sc
              = visibleText (concat chunks) @ visibleText cur @ visibleText ?tp"
        unfolding vch vs by simp
      have "visibleText ?cur = visibleText sc"
        using visibleText_Nil_iff [of sc] by (auto simp: visibleText_trim)
      then show ?thesis
        using Cons.IH [OF rest e] a unfolding vp by simp
    next
      case small: False
      have e: "packParagraphs n ps (?ch, ?tp) = (chunks', cur')"
        using Cons.prems(2) False small by (simp add: Let_def)
      show ?thesis
        using Cons.IH [OF rest e] unfolding vp vch by simp
    qed
  qed
qed

lemma visibleText_coreChunks:
  assumes "\<forall>p\<in>set (paragraphsOf text). n < length (trim p) \<longrightarrow> \<not> isTerminator (hd (trim p))"
  shows "visibleText (concat (coreChunks text n)) = visibleText text"
proof -
  obtain chunks cur where pp: "packParagraphs n (paragraphsOf text) ([], []) = (chunks, cur)"
    by (cases "packParagraphs n (paragraphsOf text) ([], [])")
  have "visibleText (concat chunks) @ visibleText cur
          = visibleText (concat []) @ visibleText [] @ visibleText (concat (paragraphsOf text))"
    using assms pp by (rule visibleText_packParagraphs)
  then have a: "visibleText (concat chunks) @ visibleText cur = visibleText text"
    by (simp add: visibleText_paragraphsOf)
  have "coreChunks text n = (if trim cur \<noteq> [] then chunks @ [trim cur] else chunks)"
    using pp by (simp add: coreChunks_def)
  then show ?thesis
    using a by (simp only: visibleText_flush)
qed

subsection \<open>Chunk size\<close>

text \<open>
  A chunk before the overlap step fits the chunk size or is something that
  \<open>splitIntoSentences\<close> returned for a paragraph longer than the chunk size
  (\<open>coreChunks_fits\<close>), and whatever it returned that is longer than the chunk size is a
  chunk by itself (\<open>coreChunks_kept\<close>). For a paragraph that does not begin with a sentence
  terminator, what \<open>splitIntoSentences\<close> returns are the sentences of the specification.
\<close>

lemma specSentences_no_terminator:
  "s \<noteq> [] \<Longrightarrow> \<forall>c\<in>set s. \<not> isTerminator c \<Longrightarrow> specSentences s = [s]"
proof -
  assume ne: "s \<noteq> []" and nt: "\<forall>c\<in>set s. \<not> isTerminator c"
  obtain c cs where s: "s = c # cs"
    using ne by (cases s) auto
  have t: "takeWhile (\<lambda>c. \<not> isTerminator c) (c # cs) = c # cs"
    using nt unfolding s by (intro takeWhile_eq_all_conv [THEN iffD2]) simp
  have d: "dropWhile (\<lambda>c. \<not> isTerminator c) (c # cs) = []"
    using nt unfolding s by (intro dropWhile_eq_Nil_conv [THEN iffD2]) simp
  show ?thesis
    unfolding s by (simp only: specSentences.simps Let_def t d) simp
qed

lemma specSentences_matchSentences:
  "s = [] \<or> \<not> isTerminator (hd s) \<Longrightarrow>
   specSentences s =
     matchSentences s @
       (if drop (length (concat (matchSentences s))) s = [] then []
        else [drop (length (concat (matchSentences s))) s])"
proof (induction s rule: matchSentences.induct)
  case 1
  then show ?case by simp
next
  case (2 c cs)
  then have nt: "\<not> isTerminator (hd (c # cs))"
    by simp
  show ?case
  proof (cases "matchSentenceAt (c # cs)")
    case None
    then have all: "\<forall>x\<in>set (c # cs). \<not> isTerminator x"
      using nt by (intro matchSentenceAt_None) simp_all
    then have "matchSentences cs = []"
      by (intro matchSentences_no_terminator) simp
    then have m: "matchSentences (c # cs) = []"
      using None by simp
    have "specSentences (c # cs) = [c # cs]"
      using all by (intro specSentences_no_terminator) simp_all
    then show ?thesis
      unfolding m by simp
  next
    case (Some mr)
    obtain m r where mr: "mr = (m, r)"
      by (cases mr)
    have sp: "c # cs = m @ r" and hr: "r = [] \<or> \<not> isTerminator (hd r)"
      using matchSentenceAt_Some [of "c # cs" m r] Some mr by simp_all
    have md: "m = takeWhile (\<lambda>c. \<not> isTerminator c) (c # cs)
                  @ takeWhile isTerminator (dropWhile (\<lambda>c. \<not> isTerminator c) (c # cs))"
      and rd: "r = dropWhile isTerminator (dropWhile (\<lambda>c. \<not> isTerminator c) (c # cs))"
      using Some mr by (auto simp: matchSentenceAt_def Let_def split: if_splits)
    have ms: "matchSentences (c # cs) = m # matchSentences r"
      using Some mr by simp
    have ss: "specSentences (c # cs) = m # specSentences r"
      by (simp only: specSentences.simps Let_def md rd)
    have ih: "specSentences r =
        matchSentences r @
          (if drop (length (concat (matchSentences r))) r = [] then []
           else [drop (length (concat (matchSentences r))) r])"
      using "2.IH"(2) [OF Some mr [symmetric] hr] .
    have dr: "drop (length (concat (m # matchSentences r))) (c # cs)
                = drop (length (concat (matchSentences r))) r"
      unfolding sp by simp
    show ?thesis
      unfolding ms ss ih dr by simp
  qed
qed

lemma splitIntoSentences_spec:
  assumes "s = [] \<or> \<not> isTerminator (hd s)"
  shows "splitIntoSentences s = sentencesBySpec s"
proof -
  let ?ms = "matchSentences s"
  let ?rem = "drop (length (concat ?ms)) s"
  have l: "length (concat ?ms) < length s \<longleftrightarrow> ?rem \<noteq> []"
    by auto
  have code: "splitIntoSentences s =
      filter (\<lambda>x. x \<noteq> [])
        (map trim (if ?rem \<noteq> [] \<and> trim ?rem \<noteq> [] then ?ms @ [trim ?rem] else ?ms))"
    using l by (simp add: splitIntoSentences_def Let_def)
  have spec: "sentencesBySpec s =
      filter (\<lambda>x. x \<noteq> []) (map trim (?ms @ (if ?rem = [] then [] else [?rem])))"
    unfolding sentencesBySpec_def specSentences_matchSentences [OF assms] ..
  show ?thesis
    unfolding code spec by (simp add: trim_idem)
qed

lemma coreChunks_size_bound:
  assumes "\<forall>p\<in>set (paragraphsOf text). n < length (trim p) \<longrightarrow> \<not> isTerminator (hd (trim p))"
  shows "c \<in> set (coreChunks text n) \<Longrightarrow>
           length c \<le> n \<or>
           (\<exists>p\<in>set (paragraphsOf text). n < length (trim p) \<and> c \<in> set (sentencesBySpec (trim p)))"
    and "p \<in> set (paragraphsOf text) \<Longrightarrow> n < length (trim p) \<Longrightarrow>
         s \<in> set (sentencesBySpec (trim p)) \<Longrightarrow> n < length s \<Longrightarrow> s \<in> set (coreChunks text n)"
proof -
  have eq: "splitIntoSentences (trim p) = sentencesBySpec (trim p)"
    if "p \<in> set (paragraphsOf text)" and "n < length (trim p)" for p
    using assms that by (intro splitIntoSentences_spec) simp
  show "length c \<le> n \<or>
        (\<exists>p\<in>set (paragraphsOf text). n < length (trim p) \<and> c \<in> set (sentencesBySpec (trim p)))"
    if "c \<in> set (coreChunks text n)"
    using coreChunks_fits [OF that] eq by (auto simp: oversized_def)
  show "s \<in> set (coreChunks text n)"
    if "p \<in> set (paragraphsOf text)" and "n < length (trim p)"
      and "s \<in> set (sentencesBySpec (trim p))" and "n < length s"
  proof -
    have "s \<in> oversized n (paragraphsOf text)"
      using that eq [of p] by (auto simp: oversized_def)
    then show ?thesis
      using that(4) by (rule coreChunks_kept)
  qed
qed

text \<open>
  Claim C1 says that the pre-overlap content of every chunk has at most \<open>chunkSize\<close>
  characters unless it is a single sentence longer than that, whole. By
  \<open>coreChunks_size_bound\<close> that is so unless a paragraph longer than the chunk size begins
  with a sentence terminator. There the slip of \<open>splitIntoSentences\<close> (the rest of the text
  is taken from the offset \<open>matchedLength\<close>, as if the matches started at 0) breaks it: with
  chunk size 10 and no overlap, the text \<open>...and so on. The end\<close> has the sentences \<open>...\<close>,
  \<open>and so on.\<close> and \<open>The end\<close>, none longer than 10, and comes back as the chunks
  \<open>and so on.\<close> and \<open>on. The end\<close>. The second chunk has 11 characters and is no sentence
  of the text: the splitter itself cuts it in two.
\<close>

theorem chunkText_oversized_chunk:
  "chunkText (js ''...and so on. The end'') 10 0 = [js ''and so on.'', js ''on. The end''] \<and>
   coreChunks (js ''...and so on. The end'') 10 = [js ''and so on.'', js ''on. The end''] \<and>
   sentencesBySpec (js ''...and so on. The end'') = [js ''...'', js ''and so on.'', js ''The end''] \<and>
   length (js ''on. The end'') = 11 \<and>
   js ''on. The end'' \<notin> set (sentencesBySpec (js ''...and so on. The end'')) \<and>
   splitIntoSentences (js ''on. The end'') = [js ''on.'', js ''The end'']"
proof -
  have a: "chunkText (js ''...and so on. The end'') 10 0 = [js ''and so on.'', js ''on. The end'']"
    by code_simp
  have b: "coreChunks (js ''...and so on. The end'') 10 = [js ''and so on.'', js ''on. The end'']"
    by code_simp
  have c: "sentencesBySpec (js ''...and so on. The end'')
             = [js ''...'', js ''and so on.'', js ''The end'']"
    by code_simp
  have d: "length (js ''on. The end'') = 11"
    by (simp add: js_def)
  have e: "js ''on. The end'' \<notin> set [js ''...'', js ''and so on.'', js ''The end'']"
    by code_simp
  have f: "splitIntoSentences (js ''on. The end'') = [js ''on.'', js ''The end'']"
    by code_simp
  show ?thesis
    using a b c d e f by simp
qed

subsection \<open>Text that is lost\<close>

text \<open>
  Claim C3 says that the chunks, without their overlap and their joins, give back the
  text of the paragraphs. By \<open>visibleText_coreChunks\<close> that is so unless a paragraph longer
  than the chunk size begins with a sentence terminator. There \<open>splitIntoSentences\<close>
  breaks it: the regular expression cannot match at a terminator, so the matches start
  after the leading terminators, yet the rest of the text is taken from the offset
  \<open>matchedLength\<close> as if the matches started at 0. With chunk size 3 and no overlap, the
  text \<open>!ab.\<close> comes back as the chunks \<open>ab.\<close> and \<open>.\<close>: the \<open>!\<close> is lost and the full
  stop is there twice.
\<close>

theorem chunkText_leading_terminator:
  "splitIntoSentences (js ''!ab.'') = [js ''ab.'', js ''.''] \<and>
   chunkText (js ''!ab.'') 3 0 = [js ''ab.'', js ''.''] \<and>
   visibleText (concat (chunkText (js ''!ab.'') 3 0)) = js ''ab..'' \<and>
   visibleText (js ''!ab.'') = js ''!ab.'' \<and>
   visibleText (concat (chunkText (js ''!ab.'') 3 0)) \<noteq> visibleText (js ''!ab.'')"
proof -
  have a: "splitIntoSentences (js ''!ab.'') = [js ''ab.'', js ''.'']"
    by code_simp
  have b: "chunkText (js ''!ab.'') 3 0 = [js ''ab.'', js ''.'']"
    by code_simp
  have c: "visibleText (concat [js ''ab.'', js ''.'']) = js ''ab..''"
    by code_simp
  have d: "visibleText (js ''!ab.'') = js ''!ab.''"
    by code_simp
  have e: "js ''ab..'' \<noteq> js ''!ab.''"
    by code_simp
  show ?thesis
    using a b c d e by simp
qed

section \<open>Properties of retrieval\<close>

lemma petEnv_search:
  "searchSimilarDocuments petEnv (js ''pets'') 3 0.3 =
     (Inr petResults,
      [PoolConnect, EmbeddingCall (js ''pets''), StoreQuery 0 (Some 0.3) 3, StoreQuery 0 None 3,
       PoolRelease])"
  by (simp add: searchSimilarDocuments_def petEnv_def toResult_def petResults_def intToString_def
        natToString.simps digit_def js_def)



section \<open>Properties of answer synthesis\<close>

subsection \<open>Nothing retrieved\<close>

lemma searchSimilarDocuments_calls:
  "c \<in> set (snd (searchSimilarDocuments env query limit threshold)) \<Longrightarrow> \<not> isLanguageModelCall c"
  by (auto simp: searchSimilarDocuments_def isLanguageModelCall_def
           split: if_splits option.splits)

lemma silentEnv_search:
  "searchSimilarDocuments silentEnv (js ''Where is it?'') 3 0.3 =
     (Inr [], [PoolConnect, EmbeddingCall (js ''Where is it?''), StoreQuery 12 (Some 0.3) 3,
               StoreQuery 12 None 3, PoolRelease])"
  by (simp add: searchSimilarDocuments_def silentEnv_def js_def)

text \<open>
  Claim C5. When the retrieval returns no result, \<open>generateRAGAnswer\<close> returns the fixed
  answer \<open>noResultsAnswer\<close> with no sources and the elapsed time, and the trace of the
  request has no call to the Language Model Service.
\<close>

theorem no_results_short_circuit:
  assumes "searchSimilarDocuments env question maxSources 0.3 = (Inr [], calls)"
  shows "generateRAGAnswer env question maxSources startTime endTime =
           (Inr \<lparr>answer = noResultsAnswer, sources = [],
                 responseTime = endTime - startTime, tokensUsed = None\<rparr>, calls) \<and>
         filter isLanguageModelCall (snd (generateRAGAnswer env question maxSources startTime endTime)) = []"
proof -
  have g: "generateRAGAnswer env question maxSources startTime endTime =
           (Inr \<lparr>answer = noResultsAnswer, sources = [],
                 responseTime = endTime - startTime, tokensUsed = None\<rparr>, calls)"
    using assms by (simp add: generateRAGAnswer_def)
  have "\<forall>c\<in>set calls. \<not> isLanguageModelCall c"
    using searchSimilarDocuments_calls [of _ env question maxSources "0.3"] assms by simp
  then have "filter isLanguageModelCall calls = []"
    by (simp add: filter_empty_conv)
  then show ?thesis
    using g by simp
qed

theorem no_results_short_circuit_witness:
  "generateRAGAnswer silentEnv (js ''Where is it?'') 3 1000 1040 =
     (Inr \<lparr>answer = noResultsAnswer, sources = [], responseTime = 40, tokensUsed = None\<rparr>,
      [PoolConnect, EmbeddingCall (js ''Where is it?''), StoreQuery 12 (Some 0.3) 3,
       StoreQuery 12 None 3, PoolRelease])"
  using no_results_short_circuit [OF silentEnv_search, of 1000 1040] by simp

subsection \<open>Rejected questions\<close>

text \<open>
  Claim C6. A question of fewer than five characters, counted before or after trimming,
  is answered by the route \<open>/api/ask\<close> with status 400 and the message of
  \<open>validateQuestion\<close>, and the request makes no call at all: none to the Embedding Service,
  none to the Document Store, none to the Language Model Service.
\<close>

theorem short_question_no_calls:
  assumes "length question < 5 \<or> length (trim question) < 5"
  shows "askHandler env question startTime endTime =
           (Status400 (Some (if trim question = [] then msgEmpty else msgTooShort)), [])"
proof -
  have s: "length (trim question) < 5"
    using assms length_trim_le [of question] by auto
  have e: "question = [] \<Longrightarrow> trim question = []"
    by (simp add: trim_def)
  have "validateQuestion question =
          \<lparr>isValid = False, message = Some (if trim question = [] then msgEmpty else msgTooShort)\<rparr>"
    using s e by (auto simp: validateQuestion_def)
  then show ?thesis
    by (simp add: askHandler_def)
qed

theorem short_question_no_calls_witness:
  "length (js ''Hi?'') < 5 \<and>
   askHandler silentEnv (js ''Hi?'') 0 7 = (Status400 (Some msgTooShort), []) \<and>
   askHandler silentEnv (js ''      '') 0 7 = (Status400 (Some msgEmpty), [])"
proof -
  have a: "length (js ''Hi?'') < 5 \<or> length (trim (js ''Hi?'')) < 5"
    by (simp add: js_def)
  have ta: "trim (js ''Hi?'') \<noteq> []"
    by code_simp
  have tb: "trim (js ''      '') = []"
    by code_simp
  then have b: "length (js ''      '') < 5 \<or> length (trim (js ''      '')) < 5"
    by simp
  have l: "length (js ''Hi?'') < 5"
    by (simp add: js_def)
  show ?thesis
    using short_question_no_calls [OF a, of silentEnv 0 7] short_question_no_calls [OF b, of silentEnv 0 7]
      ta tb l by simp
qed

subsection \<open>Doubles and \<open>toFixed\<close>\<close>

lemma pow2_powr: "pow2 e = 2 powr of_int e"
  by (simp add: pow2_def powr_real_of_int inverse_eq_divide)





lemma binary64_eval:
  assumes "0 < x" and "pow2 e \<le> x" and "x < pow2 (e + 1)" and "- 1022 \<le> e"
  shows "binary64 x = of_int (roundHalfEven (x / pow2 (e - 52))) * pow2 (e - 52)"
proof -
  have "\<lfloor>log 2 x\<rfloor> = e"
    using assms(1-3) by (subst floor_log_eq_powr_iff) (simp_all add: pow2_powr)
  then show ?thesis
    using assms(1,4) by (simp add: binary64_def Let_def)
qed

lemma natToString_small: "n < 10 \<Longrightarrow> natToString n = [digit n]"
  by (simp add: natToString.simps)

lemma natToString_big: "\<not> n < 10 \<Longrightarrow> natToString n = natToString (n div 10) @ [digit (n mod 10)]"
  by (subst natToString.simps) simp

lemma natToString_nonempty: "natToString n \<noteq> []"
  by (cases "n < 10") (simp_all add: natToString_small natToString_big)

lemma toFixed1_shape:
  assumes "\<bar>x\<bar> < 10 ^ 21"
  shows "toFixed1 f x =
           (if x < 0 then js ''-'' else []) @ natToString (nat \<lfloor>\<bar>x\<bar> * 10 + 1 / 2\<rfloor> div 10)
           @ js ''.'' @ [digit (nat \<lfloor>\<bar>x\<bar> * 10 + 1 / 2\<rfloor> mod 10)]"
proof -
  define n where "n = nat \<lfloor>\<bar>x\<bar> * 10 + 1 / 2\<rfloor>"
  define m' where "m' = (if length (natToString n) \<le> 1 then js ''0'' @ natToString n else natToString n)"
  have ax: "(if x < 0 then - x else x) = \<bar>x\<bar>"
    by simp
  have small: "\<not> \<bar>x\<bar> \<ge> 10 ^ 21"
    using assms by simp
  have t: "toFixed1 f x = (if x < 0 then js ''-'' else []) @ take (length m' - 1) m' @ js ''.''
                            @ drop (length m' - 1) m'"
    unfolding toFixed1_def Let_def ax m'_def n_def using small by simp
  have m: "m' = natToString (n div 10) @ [digit (n mod 10)]"
  proof (cases "n < 10")
    case True
    then have "natToString n = [digit n]" "natToString (n div 10) = [digit 0]"
      by (simp_all add: natToString_small)
    moreover have "js ''0'' = [digit 0]"
      by (simp add: js_def digit_def)
    ultimately show ?thesis
      using True by (simp add: m'_def)
  next
    case False
    then have b: "natToString n = natToString (n div 10) @ [digit (n mod 10)]"
      by (rule natToString_big)
    have "\<not> length (natToString n) \<le> 1"
      unfolding b using natToString_nonempty [of "n div 10"]
      by (cases "natToString (n div 10)") simp_all
    then show ?thesis
      using b by (simp add: m'_def)
  qed
  show ?thesis
    unfolding t m n_def [symmetric] by simp
qed



text \<open>
  The model has the known surprise of \<open>toFixed\<close>: the double nearest to 0.15 is below
  0.15, so \<open>(0.15).toFixed(1)\<close> is \<open>0.1\<close>.
\<close>

lemma binary64_015: "binary64 0.15 = 5404319552844595 / 2 ^ 55"
proof -
  have "binary64 0.15 = of_int (roundHalfEven (0.15 / pow2 (- 3 - 52))) * pow2 (- 3 - 52)"
    by (rule binary64_eval) (simp_all add: pow2_def)
  also have "\<dots> = 5404319552844595 / 2 ^ 55"
    by (simp add: pow2_def roundHalfEven_def Let_def)
  finally show ?thesis .
qed

lemma toFixed1_015: "toFixed1 f (binary64 0.15) = js ''0.1''"
proof -
  let ?p = "5404319552844595 / 2 ^ 55 :: real"
  have b: "\<bar>?p\<bar> < 10 ^ 21"
    by simp
  have "toFixed1 f ?p = js ''0.1''"
    unfolding toFixed1_shape [OF b] by (simp add: natToString_small js_def digit_def)
  then show ?thesis
    by (simp only: binary64_015)
qed






subsection \<open>The context\<close>








subsection \<open>The packaged answer\<close>

text \<open>
  Claim C8. When the retrieval returns results and the Language Model Service answers
  with at least one choice, \<open>generateRAGAnswer\<close> succeeds after exactly one call to that
  service. The answer is the content of the first choice, or \<open>emptyContentAnswer\<close> when
  that content is missing or empty. The sources are the results in the same order, each
  with its preview (\<open>preview150\<close>). The response time is the difference of the two clock
  readings, not negative when the clock did not go back, and the token usage is what the
  service reported.
\<close>

theorem answer_packaging:
  assumes search: "searchSimilarDocuments env question maxSources 0.3 = (Inr results, calls)"
    and found: "results \<noteq> []"
    and reply: "chatCompletion env systemPrompt (userPromptOf (buildContext env results) question)
                  = Some response"
    and choice: "choices response = firstContent # others"
    and clock: "startTime \<le> endTime"
  shows "\<exists>r. generateRAGAnswer env question maxSources startTime endTime =
               (Inr r, calls @ [LanguageModelCall systemPrompt
                                  (userPromptOf (buildContext env results) question)]) \<and>
             answer r = (if firstContent = None \<or> firstContent = Some [] then emptyContentAnswer
                         else the firstContent) \<and>
             length (sources r) = length results \<and>
             (\<forall>i < length results.
                source_id (sources r ! i) = id' (results ! i) \<and>
                source_score (sources r ! i) = score (results ! i) \<and>
                source_text (sources r ! i) = text' (results ! i) \<and>
                chunk_preview (sources r ! i) = preview150 (text' (results ! i))) \<and>
             responseTime r = endTime - startTime \<and> 0 \<le> responseTime r \<and>
             tokensUsed r = total_tokens response"
proof -
  let ?r = "\<lparr>answer = (case firstContent of
                          None \<Rightarrow> emptyContentAnswer
                        | Some c \<Rightarrow> if c = [] then emptyContentAnswer else c),
              sources = map toSource results,
              responseTime = endTime - startTime,
              tokensUsed = total_tokens response\<rparr>"
  have g: "generateRAGAnswer env question maxSources startTime endTime =
             (Inr ?r, calls @ [LanguageModelCall systemPrompt
                                  (userPromptOf (buildContext env results) question)])"
    using search found reply choice by (simp add: generateRAGAnswer_def Let_def)
  have a: "answer ?r = (if firstContent = None \<or> firstContent = Some [] then emptyContentAnswer
                         else the firstContent)"
    by (cases firstContent) auto
  have s: "\<forall>i < length results.
                source_id (sources ?r ! i) = id' (results ! i) \<and>
                source_score (sources ?r ! i) = score (results ! i) \<and>
                source_text (sources ?r ! i) = text' (results ! i) \<and>
                chunk_preview (sources ?r ! i) = preview150 (text' (results ! i))"
    by (auto simp: toSource_def preview150_def)
  have t: "0 \<le> responseTime ?r"
    using clock by simp
  show ?thesis
    using g a s t by (intro exI [of _ ?r]) simp
qed

theorem answer_packaging_witness:
  "\<exists>r calls. generateRAGAnswer petEnv (js ''pets'') 3 100 350 = (Inr r, calls) \<and>
     answer r = js ''Dogs bark.'' \<and>
     map chunk_preview (sources r) = [js ''dogs bark'', replicate 150 0x61 @ js ''...''] \<and>
     map source_id (sources r) = [js ''2'', js ''1''] \<and>
     responseTime r = 250 \<and> tokensUsed r = Some 42"
proof -
  let ?resp = "\<lparr>choices = [Some (js ''Dogs bark.'')], total_tokens = Some 42\<rparr>"
  have found: "petResults \<noteq> []"
    by (simp add: petResults_def)
  have reply: "chatCompletion petEnv systemPrompt (userPromptOf (buildContext petEnv petResults) (js ''pets''))
                 = Some ?resp"
    by (simp add: petEnv_def)
  have choice: "choices ?resp = Some (js ''Dogs bark.'') # []"
    by simp
  have clock: "(100::int) \<le> 350"
    by simp
  from answer_packaging [OF petEnv_search found reply choice clock]
  obtain r where
    g: "generateRAGAnswer petEnv (js ''pets'') 3 100 350 =
          (Inr r, [PoolConnect, EmbeddingCall (js ''pets''), StoreQuery 0 (Some 0.3) 3,
                   StoreQuery 0 None 3, PoolRelease]
                  @ [LanguageModelCall systemPrompt
                       (userPromptOf (buildContext petEnv petResults) (js ''pets''))])" and
    a: "answer r = (if Some (js ''Dogs bark.'') = None \<or> Some (js ''Dogs bark.'') = Some []
                    then emptyContentAnswer else the (Some (js ''Dogs bark.'')))" and
    l: "length (sources r) = length petResults" and
    s: "\<forall>i < length petResults.
          source_id (sources r ! i) = id' (petResults ! i) \<and>
          source_score (sources r ! i) = score (petResults ! i) \<and>
          source_text (sources r ! i) = text' (petResults ! i) \<and>
          chunk_preview (sources r ! i) = preview150 (text' (petResults ! i))" and
    t: "responseTime r = 350 - 100" and
    u: "tokensUsed r = total_tokens ?resp"
    by blast
  have a': "answer r = js ''Dogs bark.''"
    using a by (simp add: js_def)
  have l2: "length (sources r) = 2"
    using l by (simp add: petResults_def)
  have s0: "source_id (sources r ! 0) = js ''2'' \<and> chunk_preview (sources r ! 0) = js ''dogs bark''"
    using s [rule_format, of 0] by (simp add: petResults_def preview150_def js_def)
  have s1: "source_id (sources r ! 1) = js ''1'' \<and>
            chunk_preview (sources r ! 1) = replicate 150 0x61 @ js ''...''"
    using s [rule_format, of 1] by (simp add: petResults_def preview150_def)
  obtain x y where xy: "sources r = [x, y]"
    using l2 by (metis (no_types) length_0_conv length_Suc_conv numeral_2_eq_2)
  have m: "map chunk_preview (sources r) = [js ''dogs bark'', replicate 150 0x61 @ js ''...'']"
          "map source_id (sources r) = [js ''2'', js ''1'']"
    using s0 s1 unfolding xy by simp_all
  show ?thesis
    using g a' m t u by simp
qed

subsection \<open>Validation\<close>

text \<open>
  Claim C10. \<open>validateQuestion\<close> accepts a question exactly when its trimmed text is not
  empty and has at least 5 characters and the question as given has at most 1000. So a
  question of 5 or more characters whose trimmed text has fewer than 5 is rejected, and
  so is a question longer than 1000 whose trimmed text is not.
\<close>

theorem validateQuestion_iff:
  "(isValid (validateQuestion q) \<longleftrightarrow>
      trim q \<noteq> [] \<and> 5 \<le> length (trim q) \<and> length q \<le> 1000) \<and>
   (5 \<le> length q \<and> length (trim q) < 5 \<longrightarrow> \<not> isValid (validateQuestion q)) \<and>
   (length (trim q) \<le> 1000 \<and> 1000 < length q \<longrightarrow> \<not> isValid (validateQuestion q))"
proof -
  have e: "q = [] \<Longrightarrow> trim q = []"
    by (simp add: trim_def)
  have "isValid (validateQuestion q) \<longleftrightarrow>
      trim q \<noteq> [] \<and> 5 \<le> length (trim q) \<and> length q \<le> 1000"
    using e by (auto simp: validateQuestion_def)
  then show ?thesis
    by auto
qed

theorem validateQuestion_iff_witness:
  "\<not> isValid (validateQuestion (js ''  abcd   '')) \<and>
   \<not> isValid (validateQuestion (replicate 996 0x20 @ js ''hello'')) \<and>
   isValid (validateQuestion (js ''  hello   ''))"
proof -
  let ?a = "js ''  abcd   ''" and ?b = "replicate 996 0x20 @ js ''hello''" and ?c = "js ''  hello   ''"
  have ta: "trim ?a = js ''abcd''"
    by code_simp
  have "dropWhile isWhiteSpace ?b = dropWhile isWhiteSpace (js ''hello'')"
    by (rule dropWhile_append2) (simp add: isWhiteSpace_def)
  also have "\<dots> = js ''hello''"
    by code_simp
  finally have tb: "trim ?b = js ''hello''"
    by (simp add: trim_def js_def isWhiteSpace_def)
  have tc: "trim ?c = js ''hello''"
    by code_simp
  have a: "5 \<le> length ?a \<and> length (trim ?a) < 5"
    unfolding ta by (simp add: js_def)
  have b: "length (trim ?b) \<le> 1000 \<and> 1000 < length ?b"
    unfolding tb by (simp add: js_def)
  have c: "trim ?c \<noteq> [] \<and> 5 \<le> length (trim ?c) \<and> length ?c \<le> 1000"
    unfolding tc by (simp add: js_def)
  show ?thesis
    using validateQuestion_iff [of ?a] validateQuestion_iff [of ?b] validateQuestion_iff [of ?c] a b c
    by blast
qed

end
